theory Spec2Isabelle
  imports Complex_Main "HOL-Library.AList" "HOL-Library.Multiset"
begin

section \<open>Constants of \<^verbatim>\<open>model.py\<close>\<close>

definition INPUT_SIZE :: nat where
  "INPUT_SIZE = 150"

definition NUM_CLASSES :: nat where
  "NUM_CLASSES = 5"

definition NUM_CHROMOSOMES :: nat where
  "NUM_CHROMOSOMES = 25"

section \<open>Python values and exceptions\<close>

text \<open>
  Every \<^verbatim>\<open>raise\<close> of the source and of the library calls it makes is a value
  \<open>Inl e\<close> of the result type \<open>py_error + 'a\<close>. A \<open>ValueError\<close> carries its message,
  which tells the format error of \<^verbatim>\<open>get_label_from_filename\<close> from the one
  \<^verbatim>\<open>int()\<close> raises on a malformed literal.
\<close>

datatype py_error =
    ValueError string
  | IndexError
  | KeyError string
  | TypeError
  | OverflowError
  | InvalidArgumentError
  | FileNotFoundError string

definition invalid_filename :: py_error where
  "invalid_filename = ValueError ''Invalid filename format for extracting label''"

definition invalid_literal :: py_error where
  "invalid_literal = ValueError ''invalid literal for int() with base 10''"

text \<open>
  Strings are lists of \<open>char\<close>. The source reads ASCII text (file names, FASTQ
  sequences, a comma-separated table); characters beyond ASCII are outside the model.
\<close>

text \<open>\<^verbatim>\<open>dict.get(key, default)\<close>.\<close>

definition dict_get :: "('k \<rightharpoonup> 'v) \<Rightarrow> 'k \<Rightarrow> 'v \<Rightarrow> 'v" where
  "dict_get m k d = (case m k of None \<Rightarrow> d | Some v \<Rightarrow> v)"

text \<open>
  \<^verbatim>\<open>s.rfind(sub)\<close>: the highest index at which \<open>sub\<close> occurs in \<open>s\<close>, or \<open>-1\<close>.
  The scan starts at the last position where \<open>sub\<close> still fits and walks down.
\<close>

definition occurs_at :: "string \<Rightarrow> string \<Rightarrow> nat \<Rightarrow> bool" where
  "occurs_at s sub i = (take (length sub) (drop i s) = sub)"

fun rfind_from :: "string \<Rightarrow> string \<Rightarrow> nat \<Rightarrow> int" where
  "rfind_from s sub 0 = (if occurs_at s sub 0 then 0 else - 1)"
| "rfind_from s sub (Suc i) =
     (if occurs_at s sub (Suc i) then int (Suc i) else rfind_from s sub i)"

definition rfind :: "string \<Rightarrow> string \<Rightarrow> int" where
  "rfind s sub =
     (if length s < length sub then - 1 else rfind_from s sub (length s - length sub))"

text \<open>\<^verbatim>\<open>sub in s\<close> on two strings: \<open>sub\<close> occurs somewhere in \<open>s\<close>.\<close>

fun is_substring :: "string \<Rightarrow> string \<Rightarrow> bool" where
  "is_substring sub [] = (sub = [])"
| "is_substring sub (c # cs) = (occurs_at (c # cs) sub 0 \<or> is_substring sub cs)"

text \<open>
  \<^verbatim>\<open>str.strip()\<close> removes, at both ends, the ASCII characters for which
  \<^verbatim>\<open>str.isspace\<close> holds: tab, line feed, vertical tab, form feed, carriage
  return, the four separators \<open>0x1C\<close> to \<open>0x1F\<close>, and the space.
\<close>

definition is_space :: "char \<Rightarrow> bool" where
  "is_space c = (let n = (of_char c :: nat) in (9 \<le> n \<and> n \<le> 13) \<or> (28 \<le> n \<and> n \<le> 32))"

definition strip :: "string \<Rightarrow> string" where
  "strip s = rev (dropWhile is_space (rev (dropWhile is_space s)))"

text \<open>\<^verbatim>\<open>s.split(',')\<close>: the fields between the separators; never an empty list.\<close>

fun split :: "char \<Rightarrow> string \<Rightarrow> string list" where
  "split sep [] = [[]]"
| "split sep (c # cs) =
     (if c = sep then [] # split sep cs
      else (case split sep cs of [] \<Rightarrow> [[c]] | w # ws \<Rightarrow> (c # w) # ws))"

text \<open>\<^verbatim>\<open>parts[i]\<close> for a literal index \<open>i \<ge> 0\<close>: out of range raises.\<close>

definition getitem :: "'a list \<Rightarrow> nat \<Rightarrow> py_error + 'a" where
  "getitem xs i = (if i < length xs then Inr (xs ! i) else Inl IndexError)"

text \<open>
  \<^verbatim>\<open>int(s)\<close> on a string, base 10: surrounding white space is skipped, one sign is
  allowed, then decimal digits, where single underscores may stand between digits.
  Anything else raises \<open>ValueError\<close>. The white space that \<^verbatim>\<open>int()\<close> skips in
  an ASCII string is that of C (tab, line feed, vertical tab, form feed, carriage return
  and the space): the separators \<open>0x1C\<close> to \<open>0x1F\<close>, which \<^verbatim>\<open>str.strip()\<close>
  removes, are an invalid literal for \<^verbatim>\<open>int()\<close>. The limit on the number of digits
  that an interpreter may be configured with is not modelled.
\<close>

definition is_c_space :: "char \<Rightarrow> bool" where
  "is_c_space c = (let n = (of_char c :: nat) in (9 \<le> n \<and> n \<le> 13) \<or> n = 32)"

definition skip_spaces :: "string \<Rightarrow> string" where
  "skip_spaces s = rev (dropWhile is_c_space (rev (dropWhile is_c_space s)))"

definition is_digit :: "char \<Rightarrow> bool" where
  "is_digit c = (let n = (of_char c :: nat) in 48 \<le> n \<and> n \<le> 57)"

definition digit_val :: "char \<Rightarrow> nat" where
  "digit_val c = of_char c - 48"

fun parse_digits :: "string \<Rightarrow> nat \<Rightarrow> nat option" where
  "parse_digits [] acc = Some acc"
| "parse_digits (c # cs) acc =
     (if is_digit c then parse_digits cs (10 * acc + digit_val c)
      else if c = CHR ''_'' then
        (case cs of
           [] \<Rightarrow> None
         | d # ds \<Rightarrow> if is_digit d then parse_digits ds (10 * acc + digit_val d) else None)
      else None)"

definition parse_nat :: "string \<Rightarrow> nat option" where
  "parse_nat s =
     (case s of
        [] \<Rightarrow> None
      | c # cs \<Rightarrow> if is_digit c then parse_digits cs (digit_val c) else None)"

definition int_of_str :: "string \<Rightarrow> py_error + int" where
  "int_of_str s =
     (let t = skip_spaces s;
          neg = (t \<noteq> [] \<and> hd t = CHR ''-'');
          body = (if t \<noteq> [] \<and> (hd t = CHR ''-'' \<or> hd t = CHR ''+'') then tl t else t)
      in case parse_nat body of
           None \<Rightarrow> Inl invalid_literal
         | Some n \<Rightarrow> Inr (if neg then - int n else int n))"

section \<open>Sequence Encoder\<close>

definition normalize_sequence :: "string \<Rightarrow> real list" where
  "normalize_sequence seq =
     (let mapping = [CHR ''A'' \<mapsto> 1, CHR ''C'' \<mapsto> 2, CHR ''G'' \<mapsto> 3, CHR ''T'' \<mapsto> (4::real)]
      in map (\<lambda>base. dict_get mapping base 0) seq)"

section \<open>Label extraction\<close>

text \<open>
  \<^verbatim>\<open>os.path.basename\<close> and \<^verbatim>\<open>os.path.splitext\<close> as \<^verbatim>\<open>posixpath\<close> defines
  them: the base name is what follows the last \<open>/\<close>; the extension starts at the last
  dot after the last \<open>/\<close>, unless only dots stand between that \<open>/\<close> and the dot.
\<close>

definition basename :: "string \<Rightarrow> string" where
  "basename p = drop (nat (rfind p ''/'' + 1)) p"

definition splitext :: "string \<Rightarrow> string \<times> string" where
  "splitext p =
     (let sepIndex = rfind p ''/'';
          dotIndex = rfind p ''.''
      in if dotIndex > sepIndex \<and>
            list_ex (\<lambda>filenameIndex. p ! filenameIndex \<noteq> CHR ''.'')
              [nat (sepIndex + 1) ..< nat dotIndex]
         then (take (nat dotIndex) p, drop (nat dotIndex) p)
         else (p, []))"

definition get_label_from_filename :: "string \<Rightarrow> py_error + int" where
  "get_label_from_filename file_path =
     (let filename = fst (splitext (fst (splitext (basename file_path))));
          label_pos = rfind filename ''__''
      in if label_pos \<noteq> - 1 then int_of_str (drop (nat (label_pos + 2)) filename)
         else Inl invalid_filename)"

section \<open>Alignment Index\<close>

text \<open>
  The dictionary \<^verbatim>\<open>alignment_info\<close> is an association list with distinct keys:
  \<^verbatim>\<open>d[k] = v\<close> is \<open>AList.update k v d\<close> (the value of an existing key is replaced
  in place, a new key goes to the end), a lookup is \<open>map_of d k\<close>, and the dictionary
  is falsy exactly when the list is empty.
\<close>

type_synonym alignment_dict = "(string \<times> (int \<times> int \<times> int)) list"

definition and_then :: "py_error + 'a \<Rightarrow> ('a \<Rightarrow> py_error + 'b) \<Rightarrow> py_error + 'b" where
  "and_then m f = (case m of Inl e \<Rightarrow> Inl e | Inr x \<Rightarrow> f x)"

text \<open>The body of the loop over the lines of the file, up to the dictionary update.\<close>

definition parse_alignment_line :: "string \<Rightarrow> py_error + (string \<times> int \<times> int \<times> int)" where
  "parse_alignment_line line =
     (let parts = split CHR '','' (strip line) in
      and_then (getitem parts 0) (\<lambda>read_id.
      and_then (and_then (getitem parts 1) int_of_str) (\<lambda>chromosome.
      and_then (and_then (getitem parts 2) int_of_str) (\<lambda>start.
      and_then (and_then (getitem parts 3) int_of_str) (\<lambda>end.
        Inr (read_id, chromosome, start, end))))))"

fun load_alignment_loop :: "string list \<Rightarrow> alignment_dict \<Rightarrow> py_error + alignment_dict" where
  "load_alignment_loop [] alignment_info = Inr alignment_info"
| "load_alignment_loop (line # rest) alignment_info =
     (case parse_alignment_line line of
        Inl e \<Rightarrow> Inl e
      | Inr (read_id, triple) \<Rightarrow>
          load_alignment_loop rest (AList.update read_id triple alignment_info))"

text \<open>
  \<open>open_lines\<close> is the file system as \<^verbatim>\<open>open(file_path, 'r')\<close> sees it: the lines
  of the file at a path, or the error that opening it raises.
\<close>

definition load_alignment_info ::
  "(string \<Rightarrow> py_error + string list) \<Rightarrow> string \<Rightarrow> py_error + alignment_dict" where
  "load_alignment_info open_lines file_path =
     (case open_lines file_path of
        Inl e \<Rightarrow> Inl e
      | Inr lines \<Rightarrow> load_alignment_loop lines [])"

section \<open>Dataset Loader\<close>

text \<open>A record of \<^verbatim>\<open>SeqIO.parse(file_path, "fastq")\<close>: its identifier and its sequence.\<close>

record fastq_record =
  rec_id :: string
  rec_seq :: string

text \<open>
  The argument \<^verbatim>\<open>alignment_info\<close> of \<^verbatim>\<open>load_sequences\<close> is untyped in the
  source. Its callers pass \<^verbatim>\<open>None\<close>, a dictionary (\<^verbatim>\<open>predict_nn\<close>, through
  \<^verbatim>\<open>load_alignment_info\<close>) or the string that the command line gave
  (\<^verbatim>\<open>train_nn\<close>). The three operations the loader applies to it follow Python:
  truth value, \<^verbatim>\<open>in\<close>, and subscription by a string.
\<close>

datatype alignment_arg = PyNone | PyStr string | PyDict alignment_dict

fun truthy :: "alignment_arg \<Rightarrow> bool" where
  "truthy PyNone = False"
| "truthy (PyStr s) = (s \<noteq> [])"
| "truthy (PyDict d) = (d \<noteq> [])"

fun contains :: "alignment_arg \<Rightarrow> string \<Rightarrow> py_error + bool" where
  "contains PyNone read_id = Inl TypeError"
| "contains (PyStr s) read_id = Inr (is_substring read_id s)"
| "contains (PyDict d) read_id = Inr (map_of d read_id \<noteq> None)"

fun subscript :: "alignment_arg \<Rightarrow> string \<Rightarrow> py_error + (int \<times> int \<times> int)" where
  "subscript PyNone read_id = Inl TypeError"
| "subscript (PyStr s) read_id = Inl TypeError"
| "subscript (PyDict d) read_id =
     (case map_of d read_id of None \<Rightarrow> Inl (KeyError read_id) | Some triple \<Rightarrow> Inr triple)"

text \<open>
  \<^verbatim>\<open>tf.tensor_scatter_nd_update\<close> with one index: an index out of bounds is an
  error on a CPU and is ignored on a GPU (negative indices are out of bounds).
\<close>

datatype device = CPU | GPU

definition tensor_scatter_nd_update ::
  "device \<Rightarrow> real list \<Rightarrow> int \<Rightarrow> real \<Rightarrow> py_error + real list" where
  "tensor_scatter_nd_update dev tensor i v =
     (if 0 \<le> i \<and> i < int (length tensor) then Inr (tensor[nat i := v])
      else (case dev of CPU \<Rightarrow> Inl InvalidArgumentError | GPU \<Rightarrow> Inr tensor))"

text \<open>
  \<^verbatim>\<open>tf.expand_dims(t, axis=-1)\<close> on a vector (shape \<open>(n, 1)\<close>) and
  \<^verbatim>\<open>tf.expand_dims(t, axis=0)\<close> (shape \<open>(1, n)\<close>).
\<close>

definition expand_dims_last :: "'a list \<Rightarrow> 'a list list" where
  "expand_dims_last t = map (\<lambda>x. [x]) t"

definition expand_dims_first :: "'a list \<Rightarrow> 'a list list" where
  "expand_dims_first t = [t]"

text \<open>
  The auxiliary input of a read (lines 128 to 135). The values of \<open>start\<close> and
  \<open>end\<close> are kept exact: the rounding of the conversion to 32-bit floats is not
  modelled.
\<close>

definition aux_vector ::
  "device \<Rightarrow> nat \<Rightarrow> int \<times> int \<times> int \<Rightarrow> py_error + real list list" where
  "aux_vector dev num_chromosomes triple =
     (case triple of (chromosome, start, end) \<Rightarrow>
        (case tensor_scatter_nd_update dev (replicate num_chromosomes 0) chromosome 1 of
           Inl e \<Rightarrow> Inl e
         | Inr chrom_tensor \<Rightarrow>
             Inr (expand_dims_first (chrom_tensor @ [real_of_int start] @ [real_of_int end]))))"

text \<open>\<^verbatim>\<open>tf.convert_to_tensor([seq_label], dtype=tf.int64)\<close>: the label has to fit 64 bits.\<close>

definition int64_tensor :: "int list \<Rightarrow> py_error + int list" where
  "int64_tensor xs =
     (if list_all (\<lambda>x. - (2 ^ 63) \<le> x \<and> x < 2 ^ 63) xs then Inr xs else Inl OverflowError)"

record load_state =
  seqs :: "real list list list"
  labels :: "int list list"
  aux_inputs :: "real list list list"
  excluded :: nat
  total :: nat

definition initial_state :: load_state where
  "initial_state = \<lparr>seqs = [], labels = [], aux_inputs = [], excluded = 0, total = 0\<rparr>"

text \<open>Lines 125 to 137: the auxiliary inputs after the record has been looked up.\<close>

definition attach_aux ::
  "device \<Rightarrow> nat \<Rightarrow> alignment_arg \<Rightarrow> string \<Rightarrow> real list list list
     \<Rightarrow> py_error + real list list list" where
  "attach_aux dev num_chromosomes alignment_info read_id aux =
     (if truthy alignment_info then
        and_then (contains alignment_info read_id) (\<lambda>present.
          if present then
            and_then (subscript alignment_info read_id) (\<lambda>triple.
            and_then (aux_vector dev num_chromosomes triple) (\<lambda>aux_input.
              Inr (aux @ [aux_input])))
          else Inr aux)
      else Inr aux)"

text \<open>One turn of the loop over the records (lines 112 to 140).\<close>

definition load_step ::
  "device \<Rightarrow> nat \<Rightarrow> int \<Rightarrow> alignment_arg \<Rightarrow> load_state \<Rightarrow> fastq_record
     \<Rightarrow> py_error + load_state" where
  "load_step dev num_chromosomes seq_label alignment_info st record =
     (let st1 = st\<lparr>total := total st + 1\<rparr>;
          seq = normalize_sequence (rec_seq record)
      in if length seq < INPUT_SIZE then Inr (st1\<lparr>excluded := excluded st1 + 1\<rparr>)
         else
           (let seq_tensor = expand_dims_last (take INPUT_SIZE seq) in
            and_then (attach_aux dev num_chromosomes alignment_info (rec_id record)
                        (aux_inputs st1)) (\<lambda>aux.
            and_then (int64_tensor [seq_label]) (\<lambda>label.
              Inr (st1\<lparr>seqs := seqs st1 @ [seq_tensor],
                        labels := labels st1 @ [label],
                        aux_inputs := aux\<rparr>)))))"

fun load_loop ::
  "device \<Rightarrow> nat \<Rightarrow> int \<Rightarrow> alignment_arg \<Rightarrow> load_state \<Rightarrow> fastq_record list
     \<Rightarrow> py_error + load_state" where
  "load_loop dev num_chromosomes seq_label alignment_info st [] = Inr st"
| "load_loop dev num_chromosomes seq_label alignment_info st (record # records) =
     (case load_step dev num_chromosomes seq_label alignment_info st record of
        Inl e \<Rightarrow> Inl e
      | Inr st' \<Rightarrow> load_loop dev num_chromosomes seq_label alignment_info st' records)"

text \<open>
  What \<^verbatim>\<open>load_sequences\<close> gives back: the three arrays, and the two counters of
  the line it prints (\<^verbatim>\<open>Excluded {excluded}/{total} sequences ...\<close>).
\<close>

record load_result =
  res_seqs :: "real list list list"
  res_labels :: "int list list"
  res_aux :: "real list list list option"
  log_excluded :: nat
  log_total :: nat

text \<open>
  \<open>parse_fastq\<close> is \<^verbatim>\<open>SeqIO.parse\<close> on the file system: the records of the file
  at a path, or the error that reading it raises. An exception leaves nothing of the
  call behind, so the parse is taken whole.
\<close>

definition load_sequences ::
  "(string \<Rightarrow> py_error + fastq_record list) \<Rightarrow> device \<Rightarrow> string \<Rightarrow> alignment_arg \<Rightarrow> nat
     \<Rightarrow> py_error + load_result" where
  "load_sequences parse_fastq dev file_path alignment_info num_chromosomes =
     and_then (get_label_from_filename file_path) (\<lambda>seq_label.
     and_then (parse_fastq file_path) (\<lambda>records.
     and_then (load_loop dev num_chromosomes seq_label alignment_info initial_state records)
       (\<lambda>st.
         Inr \<lparr>res_seqs = seqs st, res_labels = labels st,
              res_aux = (if aux_inputs st \<noteq> [] then Some (aux_inputs st) else None),
              log_excluded = excluded st, log_total = total st\<rparr>)))"

section \<open>Split Engine\<close>

text \<open>
  The ratios are floats, taken here as the real numbers they stand for. The product
  \<^verbatim>\<open>data_len * train_ratio\<close> is rounded by the machine, so it is a parameter
  \<open>float_mul\<close> of the model: the product as computed. The theorems say what they
  assume of it (it is not negative on a ratio that is not; for the sizes of the parts,
  it is within one half of the exact product). \<^verbatim>\<open>int(x)\<close> on a float truncates
  towards zero.
\<close>

definition int_of_float :: "real \<Rightarrow> int" where
  "int_of_float x = (if 0 \<le> x then \<lfloor>x\<rfloor> else \<lceil>x\<rceil>)"

text \<open>
  A slice \<^verbatim>\<open>xs[start:stop]\<close> of a list, where \<open>None\<close> is an omitted bound: a
  negative bound counts from the end, and every bound is clamped to the list.
\<close>

definition slice_index :: "nat \<Rightarrow> int \<Rightarrow> nat" where
  "slice_index n i =
     (if i < 0 then (if i + int n < 0 then 0 else nat (i + int n))
      else (if int n < i then n else nat i))"

definition slice :: "'a list \<Rightarrow> int option \<Rightarrow> int option \<Rightarrow> 'a list" where
  "slice xs start stop =
     (let n = length xs;
          lo = (case start of None \<Rightarrow> 0 | Some i \<Rightarrow> slice_index n i);
          hi = (case stop of None \<Rightarrow> n | Some i \<Rightarrow> slice_index n i)
      in take (hi - lo) (drop lo xs))"

text \<open>
  \<open>shuffle\<close> is what \<^verbatim>\<open>random.shuffle\<close> does to the list in this call: some
  rearrangement of it, which the theorems assume to be a permutation.
\<close>

definition train_test_val_split ::
  "(nat list \<Rightarrow> nat list) \<Rightarrow> (nat \<Rightarrow> real \<Rightarrow> real) \<Rightarrow> nat \<Rightarrow> real \<Rightarrow> real
     \<Rightarrow> nat list \<times> nat list \<times> nat list" where
  "train_test_val_split shuffle float_mul data_len train_ratio test_ratio =
     (let indices = shuffle [0..<data_len];
          train_end = int_of_float (float_mul data_len train_ratio);
          test_end = train_end + int_of_float (float_mul data_len test_ratio)
      in (slice indices None (Some train_end),
          slice indices (Some train_end) (Some test_end),
          slice indices (Some test_end) None))"

section \<open>Training Orchestrator: loading the data\<close>

text \<open>
  \<^verbatim>\<open>np.concatenate\<close> along the first axis. An array made from an empty list has
  one dimension and length 0; an array made from \<open>n > 0\<close> tensors of one shape has
  that shape under a first axis of length \<open>n\<close>. Arrays of different numbers of
  dimensions do not concatenate, and neither does an empty list of arrays.
\<close>

definition np_concatenate :: "'a list list \<Rightarrow> py_error + 'a list" where
  "np_concatenate arrays =
     (if arrays = [] then Inl (ValueError ''need at least one array to concatenate'')
      else if list_ex (\<lambda>a. a = []) arrays \<and> list_ex (\<lambda>a. a \<noteq> []) arrays
      then Inl (ValueError ''all the input arrays must have same number of dimensions'')
      else Inr (concat arrays))"

record train_lists =
  all_sequences :: "real list list list list"
  all_labels :: "int list list list"
  all_aux_inputs :: "real list list list list"
  has_aux_inputs :: bool

text \<open>Lines 173 to 179: the loop over the files.\<close>

fun train_load_loop ::
  "(string \<Rightarrow> py_error + fastq_record list) \<Rightarrow> device \<Rightarrow> alignment_arg \<Rightarrow> train_lists
     \<Rightarrow> string list \<Rightarrow> py_error + train_lists" where
  "train_load_loop parse_fastq dev alignment_data acc [] = Inr acc"
| "train_load_loop parse_fastq dev alignment_data acc (file_path # files) =
     (case load_sequences parse_fastq dev file_path alignment_data NUM_CHROMOSOMES of
        Inl e \<Rightarrow> Inl e
      | Inr r \<Rightarrow>
          (let acc1 = acc\<lparr>all_sequences := all_sequences acc @ [res_seqs r],
                          all_labels := all_labels acc @ [res_labels r]\<rparr>;
               acc2 = (case res_aux r of
                         None \<Rightarrow> acc1
                       | Some aux \<Rightarrow> acc1\<lparr>all_aux_inputs := all_aux_inputs acc1 @ [aux],
                                          has_aux_inputs := True\<rparr>)
           in train_load_loop parse_fastq dev alignment_data acc2 files))"

record train_dataset =
  data_sequences :: "real list list list"
  data_labels :: "int list list"
  data_aux_inputs :: "real list list list option"
  data_has_aux :: bool
  aux_input_size :: "nat option"

text \<open>
  Lines 168 to 186 of \<^verbatim>\<open>train_nn\<close>, and line 205: the data set the split and the
  classifier are built from. \<open>alignment_data\<close> goes to \<^verbatim>\<open>load_sequences\<close> as it
  came in.
\<close>

definition train_nn_load ::
  "(string \<Rightarrow> py_error + fastq_record list) \<Rightarrow> device \<Rightarrow> string list \<Rightarrow> alignment_arg
     \<Rightarrow> py_error + train_dataset" where
  "train_nn_load parse_fastq dev fastq_files alignment_data =
     and_then (train_load_loop parse_fastq dev alignment_data
                 \<lparr>all_sequences = [], all_labels = [], all_aux_inputs = [],
                  has_aux_inputs = False\<rparr> fastq_files) (\<lambda>acc.
     and_then (np_concatenate (all_sequences acc)) (\<lambda>sequences.
     and_then (np_concatenate (all_labels acc)) (\<lambda>labels.
     and_then (if has_aux_inputs acc
               then and_then (np_concatenate (all_aux_inputs acc)) (\<lambda>a. Inr (Some a))
               else Inr None) (\<lambda>aux.
       Inr \<lparr>data_sequences = sequences, data_labels = labels, data_aux_inputs = aux,
            data_has_aux = has_aux_inputs acc,
            aux_input_size =
              (if has_aux_inputs acc then Some (NUM_CHROMOSOMES + 2) else None)\<rparr>))))"

text \<open>
  The command \<^verbatim>\<open>train\<close> of \<^verbatim>\<open>terminal.py\<close>: the option \<^verbatim>\<open>--alignment-data\<close>
  is a string or absent, and goes to \<^verbatim>\<open>train_nn\<close> unchanged.
\<close>

definition train ::
  "(string \<Rightarrow> py_error + fastq_record list) \<Rightarrow> device \<Rightarrow> string list \<Rightarrow> string option
     \<Rightarrow> py_error + train_dataset" where
  "train parse_fastq dev fastq_files alignment_data =
     train_nn_load parse_fastq dev fastq_files
       (case alignment_data of None \<Rightarrow> PyNone | Some path \<Rightarrow> PyStr path)"

section \<open>Inference Engine\<close>

text \<open>\<^verbatim>\<open>tf.argmax\<close> over a row of logits: the first index of the largest value.\<close>

fun argmax_from :: "real list \<Rightarrow> nat \<Rightarrow> nat \<Rightarrow> real \<Rightarrow> nat" where
  "argmax_from [] i best best_val = best"
| "argmax_from (x # xs) i best best_val =
     (if best_val < x then argmax_from xs (Suc i) i x
      else argmax_from xs (Suc i) best best_val)"

definition argmax :: "real list \<Rightarrow> nat" where
  "argmax row = (case row of [] \<Rightarrow> 0 | x # xs \<Rightarrow> argmax_from xs 1 0 x)"

text \<open>\<^verbatim>\<open>np.bincount(x, minlength=m)\<close>: one count for each value below
  \<open>max (m, max(x) + 1)\<close>.\<close>

definition bincount :: "nat list \<Rightarrow> nat \<Rightarrow> nat list" where
  "bincount x minlength =
     map (\<lambda>c. count_list x c) [0..<max minlength (if x = [] then 0 else Suc (foldr max x 0))]"

text \<open>
  The floats of the class distribution: a division by zero gives \<open>nan\<close> or \<open>inf\<close>
  in numpy (with a warning), not an exception. Finite values are exact reals: floating
  point rounding is not modelled, nor is the rounding to two decimals of the printed
  line.
\<close>

datatype np_float = Finite real | PosInf | NaN

definition np_divide :: "nat \<Rightarrow> nat \<Rightarrow> np_float" where
  "np_divide a b =
     (if b \<noteq> 0 then Finite (real a / real b) else if a = 0 then NaN else PosInf)"

fun np_times :: "np_float \<Rightarrow> real \<Rightarrow> np_float" where
  "np_times (Finite x) k = Finite (x * k)"
| "np_times PosInf k = (if 0 < k then PosInf else NaN)"
| "np_times NaN k = NaN"

text \<open>
  Lines 249 to 259: from the logits of one file to the lines printed for it, one
  \<open>(cls, count, percentage)\<close> for each entry of \<^verbatim>\<open>class_counts\<close>.
\<close>

definition class_report :: "real list list \<Rightarrow> (nat \<times> nat \<times> np_float) list" where
  "class_report predictions =
     (let predicted_classes = map argmax predictions;
          class_counts = bincount predicted_classes NUM_CLASSES;
          total_predictions = length predicted_classes;
          class_distribution = map (\<lambda>c. np_times (np_divide c total_predictions) 100) class_counts
      in map (\<lambda>(cls, count). (cls, count, class_distribution ! cls))
           (zip [0..<length class_counts] class_counts))"

text \<open>
  \<^verbatim>\<open>predict_nn\<close>: \<open>classifier\<close> is the model with its weights loaded, from the
  sequences and the auxiliary inputs of a file to its logits. The reports of the files
  before a failing one have been printed when the exception ends the run.
\<close>

fun predict_nn ::
  "(string \<Rightarrow> py_error + string list) \<Rightarrow> (string \<Rightarrow> py_error + fastq_record list) \<Rightarrow> device
     \<Rightarrow> (real list list list \<Rightarrow> real list list list option \<Rightarrow> py_error + real list list)
     \<Rightarrow> string list \<Rightarrow> string option
     \<Rightarrow> (string \<times> (nat \<times> nat \<times> np_float) list) list \<times> py_error option" where
  "predict_nn open_lines parse_fastq dev classifier [] alignment_data = ([], None)"
| "predict_nn open_lines parse_fastq dev classifier (fastq_path # files) alignment_data =
     (case
        and_then (case alignment_data of
                    None \<Rightarrow> Inr PyNone
                  | Some path \<Rightarrow> and_then (load_alignment_info open_lines path)
                                   (\<lambda>d. Inr (PyDict d))) (\<lambda>alignment_info.
        and_then (load_sequences parse_fastq dev fastq_path alignment_info NUM_CHROMOSOMES)
          (\<lambda>r.
        and_then (classifier (res_seqs r) (res_aux r)) (\<lambda>predictions.
          Inr (class_report predictions))))
      of
        Inl e \<Rightarrow> ([], Some e)
      | Inr report \<Rightarrow>
          (case predict_nn open_lines parse_fastq dev classifier files alignment_data of
             (reports, err) \<Rightarrow> ((fastq_path, report) # reports, err)))"

text \<open>Shorthands of the proofs about the loop of the loader: a record the loop excludes, and
  the tensor it keeps of a record it retains.\<close>

definition short :: "fastq_record \<Rightarrow> bool" where
  "short record = (length (rec_seq record) < INPUT_SIZE)"

definition seq_tensor_of :: "fastq_record \<Rightarrow> real list list" where
  "seq_tensor_of record = expand_dims_last (take INPUT_SIZE (normalize_sequence (rec_seq record)))"

text \<open>The number that a string of decimal digits denotes.\<close>

definition decimal :: "string \<Rightarrow> nat" where
  "decimal ds = foldl (\<lambda>acc c. 10 * acc + digit_val c) 0 ds"

text \<open>
  The words of the specification about the alignment table: the comma-separated fields
  of a line, a field that is an integer, a well-formed line (at least four fields, of
  which the second to fourth are integers), the key and the triple of a line, and the
  triple of the last line that has a given key.
\<close>

definition fields :: "string \<Rightarrow> string list" where
  "fields line = split CHR '','' (strip line)"

definition is_int :: "string \<Rightarrow> bool" where
  "is_int s = (case int_of_str s of Inl e \<Rightarrow> False | Inr n \<Rightarrow> True)"

definition the_int :: "string \<Rightarrow> int" where
  "the_int s = (case int_of_str s of Inl e \<Rightarrow> 0 | Inr n \<Rightarrow> n)"

definition well_formed_line :: "string \<Rightarrow> bool" where
  "well_formed_line line =
     (4 \<le> length (fields line) \<and> is_int (fields line ! 1) \<and> is_int (fields line ! 2) \<and>
      is_int (fields line ! 3))"

definition line_key :: "string \<Rightarrow> string" where
  "line_key line = fields line ! 0"

definition line_triple :: "string \<Rightarrow> int \<times> int \<times> int" where
  "line_triple line =
     (the_int (fields line ! 1), the_int (fields line ! 2), the_int (fields line ! 3))"

definition last_occurrence :: "string list \<Rightarrow> string \<Rightarrow> (int \<times> int \<times> int) option" where
  "last_occurrence lines read_id =
     (case filter (\<lambda>line. line_key line = read_id) lines of
        [] \<Rightarrow> None
      | ls \<Rightarrow> Some (line_triple (last ls)))"

section \<open>Properties of the Sequence Encoder\<close>

lemma normalize_sequence_length: "length (normalize_sequence s) = length s"
  by (simp add: normalize_sequence_def)

lemma normalize_sequence_nth:
  "i < length s \<Longrightarrow> normalize_sequence s ! i =
     (if s ! i = CHR ''A'' then 1 else if s ! i = CHR ''C'' then 2
      else if s ! i = CHR ''G'' then 3 else if s ! i = CHR ''T'' then 4 else 0)"
  by (simp add: normalize_sequence_def dict_get_def)

text \<open>
  Claim C8. The Sequence Encoder is a total function on strings (its result type has no
  error): the result has the length of the input, and position by position \<open>A\<close>,
  \<open>C\<close>, \<open>G\<close>, \<open>T\<close> become 1, 2, 3, 4 and every other symbol becomes 0.
\<close>

theorem normalize_sequence_total:
  "length (normalize_sequence s) = length s \<and>
   (\<forall>i<length s. normalize_sequence s ! i =
      (if s ! i = CHR ''A'' then 1 else if s ! i = CHR ''C'' then 2
       else if s ! i = CHR ''G'' then 3 else if s ! i = CHR ''T'' then 4 else 0))"
  using normalize_sequence_nth by (simp add: normalize_sequence_length)

theorem normalize_sequence_total_witness:
  "length (normalize_sequence ''ACGTN'') = 5 \<and> normalize_sequence ''ACGTN'' ! 0 = 1 \<and>
   normalize_sequence ''ACGTN'' ! 1 = 2 \<and> normalize_sequence ''ACGTN'' ! 2 = 3 \<and>
   normalize_sequence ''ACGTN'' ! 3 = 4 \<and> normalize_sequence ''ACGTN'' ! 4 = 0"
proof -
  have len: "length ''ACGTN'' = 5" by simp
  from normalize_sequence_total [of "''ACGTN''"]
  have all: "\<And>i. i < 5 \<Longrightarrow> normalize_sequence ''ACGTN'' ! i =
      (if ''ACGTN'' ! i = CHR ''A'' then 1 else if ''ACGTN'' ! i = CHR ''C'' then 2
       else if ''ACGTN'' ! i = CHR ''G'' then 3 else if ''ACGTN'' ! i = CHR ''T'' then 4 else 0)"
    and l: "length (normalize_sequence ''ACGTN'') = length ''ACGTN''"
    by simp_all
  show ?thesis using all [of 0] all [of 1] all [of 2] all [of 3] all [of 4] l by simp
qed

text \<open>
  Claim C9. The Sequence Encoder is case-sensitive: a lower-case \<open>a\<close>, \<open>c\<close>,
  \<open>g\<close> or \<open>t\<close> at a position is encoded as 0, the value of an unknown symbol,
  whereas the upper-case letters at that position are encoded as 1, 2, 3 and 4.
\<close>

theorem normalize_sequence_case_sensitive:
  "i < length s \<Longrightarrow> s ! i \<in> {CHR ''a'', CHR ''c'', CHR ''g'', CHR ''t''} \<Longrightarrow>
     normalize_sequence s ! i = 0 \<and>
     normalize_sequence (s[i := CHR ''A'']) ! i = 1 \<and>
     normalize_sequence (s[i := CHR ''C'']) ! i = 2 \<and>
     normalize_sequence (s[i := CHR ''G'']) ! i = 3 \<and>
     normalize_sequence (s[i := CHR ''T'']) ! i = 4"
  by (auto simp add: normalize_sequence_def dict_get_def)

theorem normalize_sequence_case_sensitive_witness:
  "normalize_sequence ''Gattaca'' ! 1 = 0 \<and> normalize_sequence ''GAttaca'' ! 1 = 1"
proof -
  have a: "(1::nat) < length ''Gattaca''" by simp
  have b: "''Gattaca'' ! 1 \<in> {CHR ''a'', CHR ''c'', CHR ''g'', CHR ''t''}" by simp
  from normalize_sequence_case_sensitive [OF a b] show ?thesis by simp
qed

section \<open>Properties of the Dataset Loader\<close>

lemma and_then_Inl [simp]: "and_then (Inl e) f = Inl e"
  by (simp add: and_then_def)

lemma and_then_Inr [simp]: "and_then (Inr x) f = f x"
  by (simp add: and_then_def)

lemma and_then_eq_Inr: "and_then m f = Inr y \<longleftrightarrow> (\<exists>x. m = Inr x \<and> f x = Inr y)"
  by (cases m) simp_all


lemma load_step_short:
  assumes "short record"
  shows "load_step dev n l ai st record =
           Inr (st\<lparr>excluded := excluded st + 1, total := total st + 1\<rparr>)"
  using assms by (simp add: load_step_def short_def normalize_sequence_length Let_def)

lemma load_step_long:
  assumes "\<not> short record" and "load_step dev n l ai st record = Inr st'"
  shows "seqs st' = seqs st @ [seq_tensor_of record] \<and> labels st' = labels st @ [[l]] \<and>
         excluded st' = excluded st \<and> total st' = total st + 1"
  using assms
  by (auto simp add: load_step_def short_def seq_tensor_of_def normalize_sequence_length
        Let_def and_then_eq_Inr int64_tensor_def split: if_splits)

lemma load_loop_result:
  "load_loop dev n l ai st records = Inr st' \<Longrightarrow>
     seqs st' = seqs st @ map seq_tensor_of (filter (\<lambda>r. \<not> short r) records) \<and>
     labels st' = labels st @ replicate (length (filter (\<lambda>r. \<not> short r) records)) [l] \<and>
     excluded st' = excluded st + length (filter short records) \<and>
     total st' = total st + length records"
proof (induction records arbitrary: st)
  case Nil
  then show ?case by simp
next
  case (Cons r rs)
  show ?case
  proof (cases "short r")
    case True
    with Cons.prems have "load_loop dev n l ai (st\<lparr>excluded := excluded st + 1, total := total st + 1\<rparr>) rs = Inr st'"
      by (simp add: load_step_short)
    from Cons.IH [OF this] True show ?thesis by simp
  next
    case False
    from Cons.prems obtain st1 where s1: "load_step dev n l ai st r = Inr st1"
      and l1: "load_loop dev n l ai st1 rs = Inr st'"
      by (auto split: sum.splits)
    from load_step_long [OF False s1] Cons.IH [OF l1] False show ?thesis
      by (simp add: replicate_app_Cons_same)
  qed
qed

lemma load_loop_append:
  "load_loop dev n l ai st (xs @ ys) =
     (case load_loop dev n l ai st xs of Inl e \<Rightarrow> Inl e | Inr st' \<Rightarrow> load_loop dev n l ai st' ys)"
  by (induction xs arbitrary: st) (auto split: sum.splits)

lemma length_seq_tensor_of: "\<not> short record \<Longrightarrow> length (seq_tensor_of record) = INPUT_SIZE"
  by (simp add: seq_tensor_of_def short_def expand_dims_last_def normalize_sequence_length)

lemma load_sequences_Inr:
  assumes "load_sequences parse_fastq dev file_path ai n = Inr r"
  obtains l records st where "get_label_from_filename file_path = Inr l"
    and "parse_fastq file_path = Inr records"
    and "load_loop dev n l ai initial_state records = Inr st"
    and "r = \<lparr>res_seqs = seqs st, res_labels = labels st,
              res_aux = (if aux_inputs st \<noteq> [] then Some (aux_inputs st) else None),
              log_excluded = excluded st, log_total = total st\<rparr>"
  using assms unfolding load_sequences_def and_then_eq_Inr by auto

text \<open>
  Claim C3. When \<^verbatim>\<open>load_sequences\<close> returns, it has counted every record of the file
  (\<open>total\<close>); the records whose sequence is shorter than \<open>INPUT_SIZE\<close> are the
  excluded ones and \<open>excluded\<close> counts them; every other record is retained, in order,
  as the encoding of its sequence cut to the first \<open>INPUT_SIZE\<close> symbols (nothing is
  padded); so \<open>total = excluded + retained\<close>, and every retained tensor has exactly
  \<open>INPUT_SIZE\<close> elements (each a single value, shape \<open>(150, 1)\<close>).
\<close>

theorem load_sequences_exclusion:
  assumes "load_sequences parse_fastq dev file_path alignment_info n = Inr r"
  shows "\<exists>records. parse_fastq file_path = Inr records \<and>
      log_total r = length records \<and>
      log_excluded r = length (filter (\<lambda>record. length (rec_seq record) < INPUT_SIZE) records) \<and>
      res_seqs r =
        map (\<lambda>record. expand_dims_last (take INPUT_SIZE (normalize_sequence (rec_seq record))))
          (filter (\<lambda>record. \<not> length (rec_seq record) < INPUT_SIZE) records) \<and>
      log_total r = log_excluded r + length (res_seqs r) \<and>
      (\<forall>t \<in> set (res_seqs r). length t = INPUT_SIZE \<and> (\<forall>x \<in> set t. length x = 1))"
proof -
  from assms obtain l records st where p: "parse_fastq file_path = Inr records"
    and ll: "load_loop dev n l alignment_info initial_state records = Inr st"
    and r: "r = \<lparr>res_seqs = seqs st, res_labels = labels st,
              res_aux = (if aux_inputs st \<noteq> [] then Some (aux_inputs st) else None),
              log_excluded = excluded st, log_total = total st\<rparr>"
    by (rule load_sequences_Inr)
  from load_loop_result [OF ll]
  have s: "seqs st = map seq_tensor_of (filter (\<lambda>r. \<not> short r) records)"
    and e: "excluded st = length (filter short records)"
    and t: "total st = length records"
    by (simp_all add: initial_state_def)
  have split: "length records = length (filter short records) + length (filter (\<lambda>r. \<not> short r) records)"
    using sum_length_filter_compl [of short records] by simp
  have sizes: "\<forall>t \<in> set (seqs st). length t = INPUT_SIZE \<and> (\<forall>x \<in> set t. length x = 1)"
    unfolding s by (auto simp add: length_seq_tensor_of) (auto simp add: seq_tensor_of_def expand_dims_last_def)
  show ?thesis
    using p s e t split sizes unfolding r
    by (simp add: short_def [abs_def] seq_tensor_of_def [abs_def])
qed


lemma label7: "get_label_from_filename ''sample__7.fastq.gz'' = Inr 7"
  by code_simp

lemma label1: "get_label_from_filename ''x__1.fastq'' = Inr 1"
  by code_simp

lemma normalize_replicate_A: "normalize_sequence (replicate k CHR ''A'') = replicate k 1"
  by (simp add: normalize_sequence_def dict_get_def)

lemma load_example:
  "load_sequences (\<lambda>p. Inr [\<lparr>rec_id = ''r1'', rec_seq = replicate 150 CHR ''A''\<rparr>,
                              \<lparr>rec_id = ''r2'', rec_seq = ''ACGT''\<rparr>])
     CPU ''x__1.fastq'' PyNone NUM_CHROMOSOMES =
   Inr \<lparr>res_seqs = [expand_dims_last (replicate 150 1)], res_labels = [[1]], res_aux = None,
        log_excluded = 1, log_total = 2\<rparr>"
  by (simp add: load_sequences_def label1 load_step_def initial_state_def
        normalize_replicate_A normalize_sequence_length INPUT_SIZE_def int64_tensor_def attach_aux_def)

text \<open>
  A file of two records, one of 150 symbols and one of 4: the first is retained, the
  second excluded.
\<close>

theorem load_sequences_exclusion_witness:
  "load_sequences (\<lambda>p. Inr [\<lparr>rec_id = ''r1'', rec_seq = replicate 150 CHR ''A''\<rparr>,
                              \<lparr>rec_id = ''r2'', rec_seq = ''ACGT''\<rparr>])
     CPU ''x__1.fastq'' PyNone NUM_CHROMOSOMES =
   Inr \<lparr>res_seqs = [expand_dims_last (replicate 150 1)], res_labels = [[1]], res_aux = None,
        log_excluded = 1, log_total = 2\<rparr> \<and>
   length (expand_dims_last (replicate 150 (1::real))) = INPUT_SIZE"
  using load_sequences_exclusion [OF load_example] load_example by simp


text \<open>
  Claim C4, as stated, fails: the file name \<^verbatim>\<open>sample__7.fastq.gz\<close> is accepted by label
  extraction and gives the label 7, which is not below \<open>NUM_CLASSES = 5\<close>; the loader
  attaches that label to the reads of the file.
\<close>

theorem label_out_of_range:
  "get_label_from_filename ''sample__7.fastq.gz'' = Inr 7 \<and> \<not> (7 < int NUM_CLASSES) \<and>
   (case load_sequences (\<lambda>p. Inr [\<lparr>rec_id = ''r1'', rec_seq = replicate 150 CHR ''A''\<rparr>])
           CPU ''sample__7.fastq.gz'' PyNone NUM_CHROMOSOMES of
      Inl e \<Rightarrow> [] | Inr r \<Rightarrow> res_labels r) = [[7]]"
  by (simp add: label7 NUM_CLASSES_def load_sequences_def load_step_def initial_state_def
        normalize_replicate_A normalize_sequence_length INPUT_SIZE_def int64_tensor_def attach_aux_def)

text \<open>
  Claim C4, amended. Every label the Dataset Loader produces is the integer that label
  extraction parses from the file name, the same for every retained read of the file;
  the loader makes no check against \<open>NUM_CLASSES\<close> (the only bound is that of the 64-bit
  label tensor), so a label lies in \<open>[0, NUM_CLASSES)\<close> only when the number in the file
  name does.
\<close>

theorem load_sequences_labels:
  assumes "load_sequences parse_fastq dev file_path alignment_info n = Inr r"
  shows "\<exists>l. get_label_from_filename file_path = Inr l \<and>
           res_labels r = replicate (length (res_seqs r)) [l] \<and>
           (res_labels r \<noteq> [] \<longrightarrow> - (2 ^ 63) \<le> l \<and> l < 2 ^ 63)"
proof -
  from assms obtain l records st where g: "get_label_from_filename file_path = Inr l"
    and ll: "load_loop dev n l alignment_info initial_state records = Inr st"
    and r: "r = \<lparr>res_seqs = seqs st, res_labels = labels st,
              res_aux = (if aux_inputs st \<noteq> [] then Some (aux_inputs st) else None),
              log_excluded = excluded st, log_total = total st\<rparr>"
    by (rule load_sequences_Inr)
  from load_loop_result [OF ll]
  have s: "seqs st = map seq_tensor_of (filter (\<lambda>r. \<not> short r) records)"
    and lb: "labels st = replicate (length (filter (\<lambda>r. \<not> short r) records)) [l]"
    by (simp_all add: initial_state_def)
  have range: "- (2 ^ 63) \<le> l \<and> l < 2 ^ 63" if "labels st \<noteq> []"
  proof -
    from that lb obtain rc where "rc \<in> set records" and ns: "\<not> short rc"
      by (auto simp add: filter_empty_conv)
    then obtain pre post where sp: "records = pre @ rc # post"
      by (auto simp add: in_set_conv_decomp)
    from ll obtain st1 st2 where "load_step dev n l alignment_info st1 rc = Inr st2"
      unfolding sp by (auto simp add: load_loop_append split: sum.splits)
    with ns show ?thesis
      by (auto simp add: load_step_def short_def normalize_sequence_length Let_def
            and_then_eq_Inr int64_tensor_def split: if_splits)
  qed
  show ?thesis using g s lb range unfolding r by simp
qed


theorem load_sequences_labels_witness:
  "load_sequences (\<lambda>p. Inr [\<lparr>rec_id = ''r1'', rec_seq = replicate 150 CHR ''A''\<rparr>,
                              \<lparr>rec_id = ''r2'', rec_seq = ''ACGT''\<rparr>])
     CPU ''x__1.fastq'' PyNone NUM_CHROMOSOMES =
   Inr \<lparr>res_seqs = [expand_dims_last (replicate 150 1)], res_labels = [[1]], res_aux = None,
        log_excluded = 1, log_total = 2\<rparr> \<and>
   get_label_from_filename ''x__1.fastq'' = Inr 1"
  using load_sequences_labels [OF load_example] load_example by auto

section \<open>What the loader does with the alignment argument\<close>

lemma attach_aux_PyStr:
  "attach_aux dev n (PyStr path) read_id aux = Inr aux' \<Longrightarrow> aux' = aux"
  by (auto simp add: attach_aux_def and_then_eq_Inr split: if_splits)

lemma attach_aux_PyStr_TypeError:
  "is_substring read_id path \<Longrightarrow> path \<noteq> [] \<Longrightarrow>
     attach_aux dev n (PyStr path) read_id aux = Inl TypeError"
  by (simp add: attach_aux_def)

lemma load_step_PyStr:
  "load_step dev n l (PyStr path) st record = Inr st' \<Longrightarrow> aux_inputs st' = aux_inputs st"
  by (auto simp add: load_step_def Let_def and_then_eq_Inr split: if_splits
        dest: attach_aux_PyStr)

lemma load_loop_PyStr:
  "load_loop dev n l (PyStr path) st records = Inr st' \<Longrightarrow> aux_inputs st' = aux_inputs st"
proof (induction records arbitrary: st)
  case Nil
  then show ?case by simp
next
  case (Cons r rs)
  then obtain st1 where "load_step dev n l (PyStr path) st r = Inr st1"
    and "load_loop dev n l (PyStr path) st1 rs = Inr st'"
    by (auto split: sum.splits)
  with Cons.IH show ?case by (simp add: load_step_PyStr)
qed

lemma load_sequences_PyStr:
  assumes "load_sequences parse_fastq dev file_path (PyStr path) n = Inr r"
  shows "res_aux r = None"
proof -
  from assms obtain l records st
    where ll: "load_loop dev n l (PyStr path) initial_state records = Inr st"
    and r: "r = \<lparr>res_seqs = seqs st, res_labels = labels st,
              res_aux = (if aux_inputs st \<noteq> [] then Some (aux_inputs st) else None),
              log_excluded = excluded st, log_total = total st\<rparr>"
    by (rule load_sequences_Inr)
  from load_loop_PyStr [OF ll] show ?thesis unfolding r by (simp add: initial_state_def)
qed

lemma attach_aux_PyNone: "attach_aux dev n PyNone read_id aux = Inr aux"
  by (simp add: attach_aux_def)

lemma aux_vector_in_range:
  assumes "0 \<le> chromosome" and "chromosome < int n"
  shows "aux_vector dev n (chromosome, start, end) =
           Inr [(replicate n 0)[nat chromosome := 1] @ [real_of_int start, real_of_int end]]"
  using assms by (simp add: aux_vector_def tensor_scatter_nd_update_def expand_dims_first_def)

lemma attach_aux_PyDict:
  assumes "map_of d read_id = Some (chromosome, start, end)"
    and "0 \<le> chromosome" and "chromosome < int n"
  shows "attach_aux dev n (PyDict d) read_id aux =
           Inr (aux @ [[(replicate n 0)[nat chromosome := 1] @ [real_of_int start, real_of_int end]]])"
proof -
  from assms(1) have "d \<noteq> []" by auto
  with assms show ?thesis
    by (simp add: attach_aux_def aux_vector_in_range)
qed

lemma attach_aux_PyDict_absent:
  "map_of d read_id = None \<Longrightarrow> attach_aux dev n (PyDict d) read_id aux = Inr aux"
  by (simp add: attach_aux_def)

lemma train_load_loop_PyStr:
  "train_load_loop parse_fastq dev (PyStr path) acc files = Inr acc' \<Longrightarrow>
     has_aux_inputs acc' = has_aux_inputs acc \<and> all_aux_inputs acc' = all_aux_inputs acc"
proof (induction files arbitrary: acc)
  case Nil
  then show ?case by simp
next
  case (Cons f fs)
  from Cons.prems obtain r where r: "load_sequences parse_fastq dev f (PyStr path) NUM_CHROMOSOMES = Inr r"
    by (auto split: sum.splits)
  from load_sequences_PyStr [OF r] have none: "res_aux r = None" .
  from Cons.prems r none
  have "train_load_loop parse_fastq dev (PyStr path)
          (acc\<lparr>all_sequences := all_sequences acc @ [res_seqs r],
               all_labels := all_labels acc @ [res_labels r]\<rparr>) fs = Inr acc'"
    by (simp add: Let_def)
  from Cons.IH [OF this] show ?case by simp
qed

text \<open>
  Claim C1. \<^verbatim>\<open>train_nn\<close> hands the value of \<^verbatim>\<open>--alignment-data\<close>, a path, to
  \<^verbatim>\<open>load_sequences\<close> where \<^verbatim>\<open>predict_nn\<close> hands over the dictionary that
  \<^verbatim>\<open>load_alignment_info\<close> builds from the file at that path. With a string,
  \<^verbatim>\<open>read_id in alignment_info\<close> is a substring test on the path, and the subscription
  that follows a match raises \<open>TypeError\<close>. So a training run that is given alignment
  data and returns from loading never has an auxiliary vector: no file produces one, the
  run is treated as having no auxiliary data, and the auxiliary input width is absent.
\<close>

theorem train_with_path_has_no_aux:
  assumes "train parse_fastq dev fastq_files (Some path) = Inr d"
  shows "\<not> data_has_aux d \<and> data_aux_inputs d = None \<and> aux_input_size d = None"
proof -
  from assms obtain acc where
    loop: "train_load_loop parse_fastq dev (PyStr path)
             \<lparr>all_sequences = [], all_labels = [], all_aux_inputs = [], has_aux_inputs = False\<rparr>
             fastq_files = Inr acc"
    and d: "data_has_aux d = has_aux_inputs acc"
       "data_aux_inputs d = None \<or> has_aux_inputs acc"
       "aux_input_size d = (if has_aux_inputs acc then Some (NUM_CHROMOSOMES + 2) else None)"
    unfolding train_def train_nn_load_def and_then_eq_Inr
    by (auto split: if_splits)
  from train_load_loop_PyStr [OF loop] have "\<not> has_aux_inputs acc" by simp
  with d show ?thesis by simp
qed


lemma train_example:
  "train (\<lambda>p. Inr [\<lparr>rec_id = ''r1'', rec_seq = replicate 150 CHR ''A''\<rparr>]) CPU
     [''x__1.fastq''] (Some ''aln.csv'') =
   Inr \<lparr>data_sequences = [expand_dims_last (replicate 150 1)], data_labels = [[1]],
        data_aux_inputs = None, data_has_aux = False, aux_input_size = None\<rparr>"
  by (simp add: train_def train_nn_load_def load_sequences_def label1 load_step_def
        initial_state_def normalize_replicate_A normalize_sequence_length INPUT_SIZE_def
        int64_tensor_def attach_aux_def occurs_at_def np_concatenate_def)

text \<open>
  The training run on \<^verbatim>\<open>x__1.fastq\<close> with one read \<open>r1\<close> of 150 symbols and the
  alignment table \<^verbatim>\<open>aln.csv\<close>: the run has no auxiliary data, although the table has
  a line for \<open>r1\<close> (lemma \<open>alignment_example\<close>) and the loader, given the dictionary
  of that table, attaches the vector (lemma \<open>predict_path_example\<close>).
\<close>

theorem train_with_path_has_no_aux_witness:
  "train (\<lambda>p. Inr [\<lparr>rec_id = ''r1'', rec_seq = replicate 150 CHR ''A''\<rparr>]) CPU
     [''x__1.fastq''] (Some ''aln.csv'') =
   Inr \<lparr>data_sequences = [expand_dims_last (replicate 150 1)], data_labels = [[1]],
        data_aux_inputs = None, data_has_aux = False, aux_input_size = None\<rparr> \<and>
   \<not> data_has_aux \<lparr>data_sequences = [expand_dims_last (replicate 150 1)], data_labels = [[1]],
        data_aux_inputs = None, data_has_aux = False, aux_input_size = None\<rparr>"
  using train_with_path_has_no_aux [OF train_example] train_example by simp

lemma alignment_example:
  "load_alignment_info (\<lambda>p. Inr [''r1,3,100,250'']) ''aln.csv'' = Inr [(''r1'', 3, 100, 250)]"
  by code_simp

lemma predict_path_example:
  "load_sequences (\<lambda>p. Inr [\<lparr>rec_id = ''r1'', rec_seq = replicate 150 CHR ''A''\<rparr>]) CPU
     ''x__1.fastq'' (PyDict [(''r1'', 3, 100, 250)]) NUM_CHROMOSOMES =
   Inr \<lparr>res_seqs = [expand_dims_last (replicate 150 1)], res_labels = [[1]],
        res_aux = Some [[(replicate 25 0)[3 := 1] @ [100, 250]]],
        log_excluded = 0, log_total = 1\<rparr>"
  by (simp add: load_sequences_def label1 load_step_def initial_state_def
        normalize_replicate_A normalize_sequence_length INPUT_SIZE_def NUM_CHROMOSOMES_def
        int64_tensor_def attach_aux_PyDict [where chromosome = 3 and start = 100 and ?end = 250])

lemma train_path_type_error:
  "train (\<lambda>p. Inr [\<lparr>rec_id = ''r1'', rec_seq = replicate 150 CHR ''A''\<rparr>]) CPU
     [''x__1.fastq''] (Some ''r1.csv'') = Inl TypeError"
  by (simp add: train_def train_nn_load_def load_sequences_def label1 load_step_def
        initial_state_def normalize_replicate_A normalize_sequence_length INPUT_SIZE_def
        int64_tensor_def attach_aux_def occurs_at_def)

section \<open>Properties of the string operations\<close>

lemma occurs_at_length:
  assumes "sub \<noteq> []" and "occurs_at s sub i"
  shows "i + length sub \<le> length s"
proof -
  from assms(2) have "length (take (length sub) (drop i s)) = length sub"
    by (simp add: occurs_at_def)
  then have "length sub \<le> length s - i" by simp
  moreover from assms(1) have "0 < length sub" by simp
  ultimately show ?thesis by linarith
qed

lemma occurs_at_char: "occurs_at s [c] j \<longleftrightarrow> j < length s \<and> s ! j = c"
proof (cases "j < length s")
  case True
  then have "drop j s = s ! j # drop (Suc j) s" by (simp add: Cons_nth_drop_Suc)
  with True show ?thesis by (simp add: occurs_at_def)
next
  case False
  then show ?thesis by (simp add: occurs_at_def)
qed

lemma occurs_at_pair:
  "occurs_at s [a, b] j \<longleftrightarrow> Suc j < length s \<and> s ! j = a \<and> s ! Suc j = b"
proof (cases "Suc j < length s")
  case True
  then have "drop j s = s ! j # s ! Suc j # drop (Suc (Suc j)) s"
    by (simp add: Cons_nth_drop_Suc Suc_lessD)
  with True show ?thesis by (simp add: occurs_at_def)
next
  case False
  have "length (take 2 (drop j s)) < 2" using False by simp
  then have "take 2 (drop j s) \<noteq> [a, b]" by (metis length_Cons list.size(3) less_irrefl numeral_2_eq_2)
  with False show ?thesis by (simp add: occurs_at_def numeral_2_eq_2)
qed

lemma rfind_from_found:
  "occurs_at s sub k \<Longrightarrow> k \<le> n \<Longrightarrow> (\<And>j. k < j \<Longrightarrow> j \<le> n \<Longrightarrow> \<not> occurs_at s sub j) \<Longrightarrow>
     rfind_from s sub n = int k"
proof (induction n)
  case 0
  then show ?case by simp
next
  case (Suc n)
  show ?case
  proof (cases "k = Suc n")
    case True
    with Suc.prems show ?thesis by simp
  next
    case False
    with Suc.prems have "k \<le> n" by simp
    moreover from False Suc.prems have "\<not> occurs_at s sub (Suc n)" by simp
    ultimately show ?thesis using Suc by simp
  qed
qed

lemma rfind_from_none:
  "(\<And>j. j \<le> n \<Longrightarrow> \<not> occurs_at s sub j) \<Longrightarrow> rfind_from s sub n = - 1"
  by (induction n) simp_all

lemma rfind_from_cases:
  "rfind_from s sub n = - 1 \<and> (\<forall>j\<le>n. \<not> occurs_at s sub j) \<or>
   (\<exists>k\<le>n. rfind_from s sub n = int k \<and> occurs_at s sub k)"
proof (induction n)
  case 0
  then show ?case by simp
next
  case (Suc n)
  show ?case
  proof (cases "occurs_at s sub (Suc n)")
    case True
    then show ?thesis by auto
  next
    case False
    from Suc show ?thesis
    proof
      assume "rfind_from s sub n = - 1 \<and> (\<forall>j\<le>n. \<not> occurs_at s sub j)"
      with False have "rfind_from s sub (Suc n) = - 1 \<and> (\<forall>j\<le>Suc n. \<not> occurs_at s sub j)"
        by (simp add: le_Suc_eq)
      then show ?thesis ..
    next
      assume "\<exists>k\<le>n. rfind_from s sub n = int k \<and> occurs_at s sub k"
      then obtain k where "k \<le> n" "rfind_from s sub n = int k" "occurs_at s sub k" by blast
      with False have "k \<le> Suc n \<and> rfind_from s sub (Suc n) = int k \<and> occurs_at s sub k"
        by simp
      then show ?thesis by blast
    qed
  qed
qed

lemma rfind_last:
  assumes "sub \<noteq> []" and "occurs_at s sub k" and "\<And>j. k < j \<Longrightarrow> \<not> occurs_at s sub j"
  shows "rfind s sub = int k"
proof -
  from occurs_at_length [OF assms(1,2)] have "k \<le> length s - length sub" "\<not> length s < length sub"
    by simp_all
  with assms show ?thesis by (simp add: rfind_def rfind_from_found)
qed

lemma rfind_none:
  assumes "\<And>j. \<not> occurs_at s sub j"
  shows "rfind s sub = - 1"
  using assms by (simp add: rfind_def rfind_from_none)

lemma rfind_neg_iff:
  assumes "sub \<noteq> []"
  shows "rfind s sub = - 1 \<longleftrightarrow> (\<forall>j. \<not> occurs_at s sub j)"
proof
  assume r: "rfind s sub = - 1"
  show "\<forall>j. \<not> occurs_at s sub j"
  proof (intro allI notI)
    fix j assume o: "occurs_at s sub j"
    from occurs_at_length [OF assms o] have le: "j \<le> length s - length sub" "\<not> length s < length sub"
      by simp_all
    with r have "rfind_from s sub (length s - length sub) = - 1" by (simp add: rfind_def)
    with rfind_from_cases [of s sub "length s - length sub"] le o show False by auto
  qed
next
  assume "\<forall>j. \<not> occurs_at s sub j"
  then show "rfind s sub = - 1" by (simp add: rfind_none)
qed

lemma rfind_ge: "- 1 \<le> rfind s sub"
  using rfind_from_cases [of s sub "length s - length sub"] by (auto simp add: rfind_def)

lemma is_substring_iff: "is_substring sub s \<longleftrightarrow> (\<exists>j. occurs_at s sub j)"
proof (induction s)
  case Nil
  then show ?case by (auto simp add: occurs_at_def)
next
  case (Cons c cs)
  have shift: "\<And>j. occurs_at (c # cs) sub (Suc j) = occurs_at cs sub j"
    by (simp add: occurs_at_def)
  show ?case
  proof
    assume "is_substring sub (c # cs)"
    with Cons shift show "\<exists>j. occurs_at (c # cs) sub j" by auto
  next
    assume "\<exists>j. occurs_at (c # cs) sub j"
    then obtain j where j: "occurs_at (c # cs) sub j" by blast
    show "is_substring sub (c # cs)"
    proof (cases j)
      case 0
      with j show ?thesis by simp
    next
      case (Suc i)
      with j shift have "occurs_at cs sub i" by simp
      with Cons show ?thesis by auto
    qed
  qed
qed

lemma rfind_char:
  assumes "c \<notin> set ys"
  shows "rfind (xs @ c # ys) [c] = int (length xs)"
proof (rule rfind_last)
  show "[c] \<noteq> []" by simp
  show "occurs_at (xs @ c # ys) [c] (length xs)" by (simp add: occurs_at_char)
  fix j assume "length xs < j"
  with assms show "\<not> occurs_at (xs @ c # ys) [c] j"
    by (auto simp add: occurs_at_char nth_append nth_Cons split: nat.splits)
qed

lemma rfind_char_absent: "c \<notin> set s \<Longrightarrow> rfind s [c] = - 1"
  by (rule rfind_none) (auto simp add: occurs_at_char)


section \<open>Properties of label extraction\<close>

lemma basename_plain: "CHR ''/'' \<notin> set name \<Longrightarrow> basename name = name"
  by (simp add: basename_def rfind_char_absent)

lemma basename_dir:
  assumes "CHR ''/'' \<notin> set name"
  shows "basename (dir @ CHR ''/'' # name) = name"
proof -
  have "nat (int (length dir) + 1) = Suc (length dir)" by simp
  with assms show ?thesis by (simp add: basename_def rfind_char)
qed

lemma splitext_ext:
  assumes "CHR ''/'' \<notin> set b" and "CHR ''/'' \<notin> set e" and "CHR ''.'' \<notin> set e"
    and "\<exists>c \<in> set b. c \<noteq> CHR ''.''"
  shows "splitext (b @ CHR ''.'' # e) = (b, CHR ''.'' # e)"
proof -
  have sep: "rfind (b @ CHR ''.'' # e) ''/'' = - 1"
    using assms(1,2) by (simp add: rfind_char_absent)
  have dot: "rfind (b @ CHR ''.'' # e) ''.'' = int (length b)"
    using assms(3) by (rule rfind_char)
  from assms(4) obtain i where "i < length b" "b ! i \<noteq> CHR ''.''"
    by (auto simp add: in_set_conv_nth)
  then have "\<exists>i \<in> set [0..<length b]. (b @ CHR ''.'' # e) ! i \<noteq> CHR ''.''"
    by (auto simp add: nth_append)
  then show ?thesis
    by (simp add: splitext_def sep dot list_ex_iff)
qed

lemma splitext_no_dot: "CHR ''.'' \<notin> set p \<Longrightarrow> splitext p = (p, [])"
  using rfind_ge [of p "''/''"] by (simp add: splitext_def rfind_char_absent)

lemma rfind_delimiter:
  assumes "CHR ''_'' \<notin> set suffix"
  shows "rfind (stem @ ''__'' @ suffix) ''__'' = int (length stem)"
proof (rule rfind_last)
  show "''__'' \<noteq> []" by simp
  show "occurs_at (stem @ ''__'' @ suffix) ''__'' (length stem)"
    by (simp add: occurs_at_def)
  fix j assume j: "length stem < j"
  show "\<not> occurs_at (stem @ ''__'' @ suffix) ''__'' j"
  proof
    assume "occurs_at (stem @ ''__'' @ suffix) ''__'' j"
    then have lt: "Suc j < length (stem @ ''__'' @ suffix)"
      and c: "(stem @ ''__'' @ suffix) ! Suc j = CHR ''_''"
      by (simp_all add: occurs_at_pair)
    from j obtain k where k: "Suc j = length stem + 2 + k"
      by (metis Suc_leI add_2_eq_Suc' le_Suc_ex add_Suc_right add_Suc)
    with lt have "k < length suffix" by simp
    moreover from c k have "suffix ! k = CHR ''_''"
      by (simp add: nth_append)
    ultimately show False using assms by (metis nth_mem)
  qed
qed

lemma digit_not_space: "is_digit c \<Longrightarrow> \<not> is_c_space c"
  by (simp add: is_digit_def is_c_space_def Let_def)

lemma skip_spaces_unchanged:
  assumes "s \<noteq> []" and "\<not> is_c_space (hd s)" and "\<not> is_c_space (last s)"
  shows "skip_spaces s = s"
proof -
  from assms have "dropWhile is_c_space s = s" by (cases s) simp_all
  moreover from assms have "dropWhile is_c_space (rev s) = rev s"
    by (cases "rev s") (simp_all add: hd_rev [symmetric])
  ultimately show ?thesis by (simp add: skip_spaces_def)
qed

text \<open>
  The two kinds of white space differ on the separators: \<^verbatim>\<open>str.strip()\<close> removes a
  \<open>0x1F\<close>, \<^verbatim>\<open>int()\<close> rejects a literal that holds one, and accepts one padded with
  blanks.
\<close>

lemma separator_example:
  "strip ([CHR 0x1F] @ ''3'') = ''3'' \<and>
   int_of_str ([CHR 0x1F] @ ''3'') = Inl invalid_literal \<and>
   int_of_str (''3'' @ [CHR 0x1F]) = Inl invalid_literal \<and>
   int_of_str '' 3 '' = Inr 3"
  by code_simp

lemma parse_digits_all:
  "list_all is_digit cs \<Longrightarrow>
     parse_digits cs acc = Some (foldl (\<lambda>acc c. 10 * acc + digit_val c) acc cs)"
  by (induction cs arbitrary: acc) simp_all

lemma is_digit_not_sign: "is_digit c \<Longrightarrow> c \<noteq> CHR ''-'' \<and> c \<noteq> CHR ''+''"
  by (auto simp add: is_digit_def)

lemma int_of_str_digits:
  assumes "ds \<noteq> []" and "list_all is_digit ds"
  shows "int_of_str ds = Inr (int (decimal ds))"
proof -
  from assms obtain c cs where ds: "ds = c # cs" by (cases ds) auto
  from assms have "is_digit (hd ds)" "is_digit (last ds)"
    by (simp_all add: list_all_iff)
  then have "skip_spaces ds = ds"
    using assms(1) by (simp add: skip_spaces_unchanged digit_not_space)
  moreover have "parse_nat ds = Some (decimal ds)"
    using assms(2) unfolding ds
    by (simp add: parse_nat_def decimal_def parse_digits_all)
  moreover have "hd ds \<noteq> CHR ''-''" "hd ds \<noteq> CHR ''+''"
    using \<open>is_digit (hd ds)\<close> is_digit_not_sign by blast+
  ultimately show ?thesis by (simp add: int_of_str_def Let_def)
qed


lemma stripped_name:
  assumes "dir = [] \<or> last dir = CHR ''/''"
    and "CHR ''/'' \<notin> set (base @ ext1 @ ext2)" and "CHR ''.'' \<notin> set (ext1 @ ext2)"
    and "\<exists>c \<in> set base. c \<noteq> CHR ''.''"
  shows "fst (splitext (fst (splitext (basename (dir @ base @ ''.'' @ ext1 @ ''.'' @ ext2))))) = base"
proof -
  let ?name = "base @ ''.'' @ ext1 @ ''.'' @ ext2"
  have noslash: "CHR ''/'' \<notin> set ?name" using assms(2) by simp
  have "basename (dir @ ?name) = ?name"
  proof (cases "dir = []")
    case True
    with basename_plain [OF noslash] show ?thesis by simp
  next
    case False
    with assms(1) obtain d where "dir = d @ ''/''"
      by (metis append_butlast_last_id)
    then have "dir @ ?name = d @ CHR ''/'' # ?name" by simp
    with basename_dir [OF noslash, of d] show ?thesis by simp
  qed
  moreover have "splitext ((base @ ''.'' @ ext1) @ CHR ''.'' # ext2) = (base @ ''.'' @ ext1, CHR ''.'' # ext2)"
    using assms by (intro splitext_ext) auto
  moreover have "splitext (base @ CHR ''.'' # ext1) = (base, CHR ''.'' # ext1)"
    using assms by (intro splitext_ext) auto
  ultimately show ?thesis by simp
qed

lemma get_label_no_delimiter:
  assumes "\<not> is_substring ''__'' (fst (splitext (fst (splitext (basename file_path)))))"
  shows "get_label_from_filename file_path = Inl invalid_filename"
proof -
  from assms have "rfind (fst (splitext (fst (splitext (basename file_path))))) ''__'' = - 1"
    by (simp add: rfind_neg_iff is_substring_iff)
  then show ?thesis by (simp add: get_label_from_filename_def)
qed

lemma get_label_shape:
  assumes "dir = [] \<or> last dir = CHR ''/''"
    and "CHR ''/'' \<notin> set (stem @ suffix @ ext1 @ ext2)" and "CHR ''.'' \<notin> set (ext1 @ ext2)"
    and "CHR ''_'' \<notin> set suffix"
  shows "fst (splitext (fst (splitext (basename
            (dir @ stem @ ''__'' @ suffix @ ''.'' @ ext1 @ ''.'' @ ext2))))) = stem @ ''__'' @ suffix"
    and "get_label_from_filename (dir @ stem @ ''__'' @ suffix @ ''.'' @ ext1 @ ''.'' @ ext2) =
           int_of_str suffix"
proof -
  have "fst (splitext (fst (splitext (basename
            (dir @ (stem @ ''__'' @ suffix) @ ''.'' @ ext1 @ ''.'' @ ext2))))) = stem @ ''__'' @ suffix"
    using assms by (intro stripped_name) auto
  then show base: "fst (splitext (fst (splitext (basename
            (dir @ stem @ ''__'' @ suffix @ ''.'' @ ext1 @ ''.'' @ ext2))))) = stem @ ''__'' @ suffix"
    by simp
  have "nat (int (length stem) + 2) = length stem + 2" by simp
  then show "get_label_from_filename (dir @ stem @ ''__'' @ suffix @ ''.'' @ ext1 @ ''.'' @ ext2) =
           int_of_str suffix"
    unfolding get_label_from_filename_def base Let_def rfind_delimiter [OF assms(4)]
    by simp
qed

text \<open>
  Claim C5. For a file name \<open>stem__suffix.ext1.ext2\<close> (in any directory; the two
  extensions without a dot, the suffix without an underscore) label extraction strips
  the two extensions and no more, finds the last \<open>__\<close> of what remains and returns
  \<^verbatim>\<open>int(suffix)\<close>, which for a suffix of decimal digits is the number they denote.
  When the stripped base name holds no \<open>__\<close>, label extraction fails with the format
  error, and so does \<^verbatim>\<open>load_sequences\<close> on that file, whatever it would have read.
\<close>

theorem get_label_from_filename_spec:
  "(file_path = dir @ stem @ ''__'' @ suffix @ ''.'' @ ext1 @ ''.'' @ ext2 \<and>
    (dir = [] \<or> last dir = CHR ''/'') \<and>
    CHR ''/'' \<notin> set (stem @ suffix @ ext1 @ ext2) \<and> CHR ''.'' \<notin> set (ext1 @ ext2) \<and>
    CHR ''_'' \<notin> set suffix \<longrightarrow>
      fst (splitext (fst (splitext (basename file_path)))) = stem @ ''__'' @ suffix \<and>
      get_label_from_filename file_path = int_of_str suffix \<and>
      (suffix \<noteq> [] \<and> list_all is_digit suffix \<longrightarrow>
         get_label_from_filename file_path = Inr (int (decimal suffix)))) \<and>
   (\<not> is_substring ''__'' (fst (splitext (fst (splitext (basename file_path))))) \<longrightarrow>
      get_label_from_filename file_path = Inl invalid_filename \<and>
      load_sequences parse_fastq dev file_path alignment_info n = Inl invalid_filename)"
proof (intro conjI impI)
  assume a: "file_path = dir @ stem @ ''__'' @ suffix @ ''.'' @ ext1 @ ''.'' @ ext2 \<and>
    (dir = [] \<or> last dir = CHR ''/'') \<and>
    CHR ''/'' \<notin> set (stem @ suffix @ ext1 @ ext2) \<and> CHR ''.'' \<notin> set (ext1 @ ext2) \<and>
    CHR ''_'' \<notin> set suffix"
  then have h: "dir = [] \<or> last dir = CHR ''/''"
    "CHR ''/'' \<notin> set (stem @ suffix @ ext1 @ ext2)" "CHR ''.'' \<notin> set (ext1 @ ext2)"
    "CHR ''_'' \<notin> set suffix"
    and f: "file_path = dir @ stem @ ''__'' @ suffix @ ''.'' @ ext1 @ ''.'' @ ext2"
    by blast+
  show "fst (splitext (fst (splitext (basename file_path)))) = stem @ ''__'' @ suffix"
    unfolding f using h by (rule get_label_shape)
  show l: "get_label_from_filename file_path = int_of_str suffix"
    unfolding f using h by (rule get_label_shape)
  assume "suffix \<noteq> [] \<and> list_all is_digit suffix"
  then show "get_label_from_filename file_path = Inr (int (decimal suffix))"
    unfolding l by (simp add: int_of_str_digits)
next
  assume "\<not> is_substring ''__'' (fst (splitext (fst (splitext (basename file_path)))))"
  then show g: "get_label_from_filename file_path = Inl invalid_filename"
    by (rule get_label_no_delimiter)
  show "load_sequences parse_fastq dev file_path alignment_info n = Inl invalid_filename"
    by (simp add: load_sequences_def g)
qed

lemma no_delimiter_example:
  "\<not> is_substring ''__'' (fst (splitext (fst (splitext (basename ''/data/x_1.fastq.gz'')))))"
  by code_simp

text \<open>
  The file names \<^verbatim>\<open>sample__3.fastq.gz\<close> (label 3) and \<^verbatim>\<open>/data/x_1.fastq.gz\<close>
  (no delimiter).
\<close>

theorem get_label_from_filename_spec_witness:
  "get_label_from_filename ''sample__3.fastq.gz'' = Inr 3 \<and>
   get_label_from_filename ''/data/x_1.fastq.gz'' = Inl invalid_filename \<and>
   load_sequences (\<lambda>p. Inr []) CPU ''/data/x_1.fastq.gz'' PyNone NUM_CHROMOSOMES =
     Inl invalid_filename"
proof -
  have d: "int (decimal ''3'') = 3" by (simp add: decimal_def digit_val_def)
  have shape: "''sample__3.fastq.gz'' = [] @ ''sample'' @ ''__'' @ ''3'' @ ''.'' @ ''fastq'' @ ''.'' @ ''gz'' \<and>
    (([] :: string) = [] \<or> last [] = CHR ''/'') \<and>
    CHR ''/'' \<notin> set (''sample'' @ ''3'' @ ''fastq'' @ ''gz'') \<and>
    CHR ''.'' \<notin> set (''fastq'' @ ''gz'') \<and> CHR ''_'' \<notin> set ''3''"
    by simp
  have digits: "''3'' \<noteq> [] \<and> list_all is_digit ''3''" by (simp add: is_digit_def)
  note first = get_label_from_filename_spec
         [of "''sample__3.fastq.gz''" "[]" "''sample''" "''3''" "''fastq''" "''gz''",
          THEN conjunct1, THEN mp, OF shape, THEN conjunct2, THEN conjunct2, THEN mp, OF digits]
  note second = get_label_from_filename_spec
         [of "''/data/x_1.fastq.gz''" _ _ _ _ _ "\<lambda>p. Inr []" CPU PyNone NUM_CHROMOSOMES,
          THEN conjunct2, THEN mp, OF no_delimiter_example]
  from first d second show ?thesis by simp
qed

section \<open>Properties of the Alignment Index\<close>

lemma int_of_str_is_int: "is_int s \<Longrightarrow> int_of_str s = Inr (the_int s)"
  by (simp add: is_int_def the_int_def split: sum.splits)

lemma int_of_str_not_int: "\<not> is_int s \<Longrightarrow> \<exists>e. int_of_str s = Inl e"
  by (simp add: is_int_def split: sum.splits)

lemma parse_alignment_line_well_formed:
  assumes "well_formed_line line"
  shows "parse_alignment_line line = Inr (line_key line, line_triple line)"
proof -
  from assms have len: "4 \<le> length (fields line)"
    and i: "is_int (fields line ! 1)" "is_int (fields line ! 2)" "is_int (fields line ! 3)"
    by (simp_all add: well_formed_line_def)
  from len have g: "getitem (fields line) 0 = Inr (fields line ! 0)"
    "getitem (fields line) 1 = Inr (fields line ! 1)"
    "getitem (fields line) 2 = Inr (fields line ! 2)"
    "getitem (fields line) 3 = Inr (fields line ! 3)"
    by (auto simp add: getitem_def)
  show ?thesis
    unfolding parse_alignment_line_def Let_def fields_def [symmetric]
    by (simp only: g and_then_Inr int_of_str_is_int [OF i(1)] int_of_str_is_int [OF i(2)]
          int_of_str_is_int [OF i(3)] line_key_def line_triple_def)
qed

lemma parse_alignment_line_malformed:
  assumes "\<not> well_formed_line line"
  shows "\<exists>e. parse_alignment_line line = Inl e"
proof (rule ccontr)
  assume "\<nexists>e. parse_alignment_line line = Inl e"
  then obtain r where r: "parse_alignment_line line = Inr r"
    by (cases "parse_alignment_line line") auto
  then obtain p1 c p2 s p3 e where
    "getitem (fields line) 1 = Inr p1" "int_of_str p1 = Inr c"
    "getitem (fields line) 2 = Inr p2" "int_of_str p2 = Inr s"
    "getitem (fields line) 3 = Inr p3" "int_of_str p3 = Inr e"
    unfolding parse_alignment_line_def Let_def fields_def [symmetric] and_then_eq_Inr
    by blast
  then have "well_formed_line line"
    by (auto simp add: well_formed_line_def getitem_def is_int_def split: if_splits)
  with assms show False by contradiction
qed

lemma load_alignment_loop_malformed:
  "\<exists>line \<in> set lines. \<not> well_formed_line line \<Longrightarrow>
     \<exists>e. load_alignment_loop lines d = Inl e"
proof (induction lines arbitrary: d)
  case Nil
  then show ?case by simp
next
  case (Cons l ls)
  show ?case
  proof (cases "well_formed_line l")
    case True
    with Cons.prems have "\<exists>line \<in> set ls. \<not> well_formed_line line" by auto
    from Cons.IH [OF this] True show ?thesis
      by (simp add: parse_alignment_line_well_formed)
  next
    case False
    from parse_alignment_line_malformed [OF this] show ?thesis by auto
  qed
qed

lemma last_occurrence_Cons:
  "last_occurrence (l # ls) read_id =
     (case last_occurrence ls read_id of
        Some t \<Rightarrow> Some t
      | None \<Rightarrow> if line_key l = read_id then Some (line_triple l) else None)"
  by (auto simp add: last_occurrence_def split: list.splits)

lemma load_alignment_loop_well_formed:
  "\<forall>line \<in> set lines. well_formed_line line \<Longrightarrow>
     \<exists>d'. load_alignment_loop lines d = Inr d' \<and>
       (\<forall>read_id. map_of d' read_id =
          (case last_occurrence lines read_id of None \<Rightarrow> map_of d read_id | Some t \<Rightarrow> Some t)) \<and>
       (distinct (map fst d) \<longrightarrow> distinct (map fst d'))"
proof (induction lines arbitrary: d)
  case Nil
  then show ?case by (simp add: last_occurrence_def)
next
  case (Cons l ls)
  then have wf: "well_formed_line l" and rest: "\<forall>line \<in> set ls. well_formed_line line"
    by simp_all
  from Cons.IH [OF rest, of "AList.update (line_key l) (line_triple l) d"]
  obtain d' where d': "load_alignment_loop ls (AList.update (line_key l) (line_triple l) d) = Inr d'"
    and m: "\<And>read_id. map_of d' read_id =
          (case last_occurrence ls read_id of
             None \<Rightarrow> map_of (AList.update (line_key l) (line_triple l) d) read_id
           | Some t \<Rightarrow> Some t)"
    and dist: "distinct (map fst (AList.update (line_key l) (line_triple l) d)) \<longrightarrow> distinct (map fst d')"
    by blast
  have "load_alignment_loop (l # ls) d = Inr d'"
    using wf d' by (simp add: parse_alignment_line_well_formed)
  moreover have "map_of d' read_id =
          (case last_occurrence (l # ls) read_id of None \<Rightarrow> map_of d read_id | Some t \<Rightarrow> Some t)"
    for read_id
    unfolding m last_occurrence_Cons
    by (simp add: update_conv' split: option.splits)
  moreover have "distinct (map fst d) \<longrightarrow> distinct (map fst d')"
    using dist by (simp add: distinct_update)
  ultimately show ?case by blast
qed

text \<open>
  Claim C6. On a readable file, building the Alignment Index fails with an error as soon
  as some line has fewer than four comma-separated fields or a chromosome, start or end
  field that \<^verbatim>\<open>int()\<close> rejects. When every line is well formed it returns a
  dictionary (distinct keys) that maps each read identifier to the triple of the last line
  carrying it, and holds no other key.
\<close>

theorem load_alignment_info_spec:
  assumes "open_lines file_path = Inr lines"
  shows "((\<exists>line \<in> set lines. \<not> well_formed_line line) \<longrightarrow>
            (\<exists>e. load_alignment_info open_lines file_path = Inl e)) \<and>
         ((\<forall>line \<in> set lines. well_formed_line line) \<longrightarrow>
            (\<exists>d. load_alignment_info open_lines file_path = Inr d \<and> distinct (map fst d) \<and>
               (\<forall>read_id. map_of d read_id = last_occurrence lines read_id)))"
proof (intro conjI impI)
  assume "\<exists>line \<in> set lines. \<not> well_formed_line line"
  from load_alignment_loop_malformed [OF this, of "[]"] assms
  show "\<exists>e. load_alignment_info open_lines file_path = Inl e"
    by (simp add: load_alignment_info_def)
next
  assume "\<forall>line \<in> set lines. well_formed_line line"
  from load_alignment_loop_well_formed [OF this, of "[]"]
  obtain d where d: "load_alignment_loop lines [] = Inr d"
    and m: "\<And>read_id. map_of d read_id =
          (case last_occurrence lines read_id of None \<Rightarrow> map_of [] read_id | Some t \<Rightarrow> Some t)"
    and dist: "distinct (map fst d)"
    by auto
  have "map_of d read_id = last_occurrence lines read_id" for read_id
    unfolding m by (simp split: option.splits)
  with d dist assms
  show "\<exists>d. load_alignment_info open_lines file_path = Inr d \<and> distinct (map fst d) \<and>
               (\<forall>read_id. map_of d read_id = last_occurrence lines read_id)"
    by (simp add: load_alignment_info_def)
qed

lemma alignment_good_example:
  "\<forall>line \<in> set [''r1,3,100,250'', ''r2,4,5,6'', ''r1,7,8,9''].  well_formed_line line"
  by code_simp

lemma alignment_bad_example:
  "\<exists>line \<in> set [''r1,3,100,250'', ''r2,4,x,6''].  \<not> well_formed_line line"
  by code_simp

lemma alignment_separator_example:
  "\<exists>line \<in> set [''r1,'' @ [CHR 0x1F] @ ''3,100,250''].  \<not> well_formed_line line"
  by code_simp

lemma alignment_last_example:
  "last_occurrence [''r1,3,100,250'', ''r2,4,5,6'', ''r1,7,8,9''] ''r1'' = Some (7, 8, 9)"
  by code_simp

text \<open>
  A table whose second line has a start field \<open>x\<close>, a table of three good lines in
  which \<open>r1\<close> occurs twice, and a table whose chromosome field is a \<open>3\<close> after the
  separator \<open>0x1F\<close>, which \<^verbatim>\<open>int()\<close> rejects.
\<close>

theorem load_alignment_info_spec_witness:
  "(\<exists>e. load_alignment_info (\<lambda>p. Inr [''r1,3,100,250'', ''r2,4,x,6'']) ''aln.csv'' = Inl e) \<and>
   (\<exists>d. load_alignment_info (\<lambda>p. Inr [''r1,3,100,250'', ''r2,4,5,6'', ''r1,7,8,9'']) ''aln.csv''
          = Inr d \<and> map_of d ''r1'' = Some (7, 8, 9)) \<and>
   (\<exists>e. load_alignment_info (\<lambda>p. Inr [''r1,'' @ [CHR 0x1F] @ ''3,100,250'']) ''aln.csv''
          = Inl e)"
proof -
  note bad = load_alignment_info_spec
      [of "\<lambda>p. Inr [''r1,3,100,250'', ''r2,4,x,6'']" "''aln.csv''" "[''r1,3,100,250'', ''r2,4,x,6'']",
       OF refl, THEN conjunct1, THEN mp, OF alignment_bad_example]
  note good = load_alignment_info_spec
      [of "\<lambda>p. Inr [''r1,3,100,250'', ''r2,4,5,6'', ''r1,7,8,9'']" "''aln.csv''"
          "[''r1,3,100,250'', ''r2,4,5,6'', ''r1,7,8,9'']",
       OF refl, THEN conjunct2, THEN mp, OF alignment_good_example]
  note separator = load_alignment_info_spec
      [of "\<lambda>p. Inr [''r1,'' @ [CHR 0x1F] @ ''3,100,250'']" "''aln.csv''"
          "[''r1,'' @ [CHR 0x1F] @ ''3,100,250'']",
       OF refl, THEN conjunct1, THEN mp, OF alignment_separator_example]
  from good alignment_last_example
  have "\<exists>d. load_alignment_info (\<lambda>p. Inr [''r1,3,100,250'', ''r2,4,5,6'', ''r1,7,8,9'']) ''aln.csv''
          = Inr d \<and> map_of d ''r1'' = Some (7, 8, 9)"
    by metis
  with bad separator show ?thesis by blast
qed

section \<open>Properties of the Split Engine\<close>

lemma slice_index_nonneg: "0 \<le> i \<Longrightarrow> slice_index n i = min n (nat i)"
  by (auto simp add: slice_index_def)

lemma slice_prefix: "0 \<le> a \<Longrightarrow> slice xs None (Some a) = take (nat a) xs"
  by (auto simp add: slice_def slice_index_nonneg min_def Let_def)

lemma slice_suffix: "0 \<le> b \<Longrightarrow> slice xs (Some b) None = drop (nat b) xs"
  by (auto simp add: slice_def slice_index_nonneg min_def Let_def)

lemma slice_middle:
  assumes "0 \<le> a" and "a \<le> b"
  shows "slice xs (Some a) (Some b) = take (nat b - nat a) (drop (nat a) xs)"
proof (cases "nat a \<le> length xs")
  case True
  with assms show ?thesis
    by (auto simp add: slice_def slice_index_nonneg min_def Let_def)
next
  case False
  with assms show ?thesis
    by (auto simp add: slice_def slice_index_nonneg min_def Let_def)
qed

lemma slices_concat:
  assumes "0 \<le> a" and "a \<le> b"
  shows "slice xs None (Some a) @ slice xs (Some a) (Some b) @ slice xs (Some b) None = xs"
proof -
  from assms have le: "nat a \<le> nat b" by simp
  have "take (nat a) xs @ take (nat b - nat a) (drop (nat a) xs) = take (nat b) xs"
    using le take_add [of "nat a" "nat b - nat a" xs] by simp
  then have "take (nat a) xs @ take (nat b - nat a) (drop (nat a) xs) @ drop (nat b) xs = xs"
    by (metis append_assoc append_take_drop_id)
  with assms show ?thesis
    by (simp add: slice_prefix slice_middle slice_suffix)
qed

lemma int_of_float_nonneg: "0 \<le> x \<Longrightarrow> int_of_float x = \<lfloor>x\<rfloor> \<and> 0 \<le> \<lfloor>x\<rfloor>"
  by (simp add: int_of_float_def)

lemma split_concat:
  assumes "0 \<le> float_mul N train_ratio" and "0 \<le> float_mul N test_ratio"
    and "train_test_val_split shuffle float_mul N train_ratio test_ratio =
           (train_idx, test_idx, val_idx)"
  shows "train_idx @ test_idx @ val_idx = shuffle [0..<N]"
    and "train_idx = take (nat \<lfloor>float_mul N train_ratio\<rfloor>) (shuffle [0..<N])"
    and "test_idx = take (nat (\<lfloor>float_mul N train_ratio\<rfloor> + \<lfloor>float_mul N test_ratio\<rfloor>)
                       - nat \<lfloor>float_mul N train_ratio\<rfloor>)
                  (drop (nat \<lfloor>float_mul N train_ratio\<rfloor>) (shuffle [0..<N]))"
    and "val_idx = drop (nat (\<lfloor>float_mul N train_ratio\<rfloor> + \<lfloor>float_mul N test_ratio\<rfloor>))
                 (shuffle [0..<N])"
proof -
  let ?a = "\<lfloor>float_mul N train_ratio\<rfloor>" and ?t = "\<lfloor>float_mul N test_ratio\<rfloor>"
  from assms(1,2) have fa: "int_of_float (float_mul N train_ratio) = ?a" and a0: "0 \<le> ?a"
    and ft: "int_of_float (float_mul N test_ratio) = ?t" and t0: "0 \<le> ?t"
    by (simp_all add: int_of_float_nonneg)
  from assms(3) have tr: "train_idx = slice (shuffle [0..<N]) None (Some ?a)"
    and te: "test_idx = slice (shuffle [0..<N]) (Some ?a) (Some (?a + ?t))"
    and va: "val_idx = slice (shuffle [0..<N]) (Some (?a + ?t)) None"
    by (simp_all add: train_test_val_split_def Let_def fa ft)
  from a0 t0 have le: "?a \<le> ?a + ?t" and b0: "0 \<le> ?a + ?t" by simp_all
  show "train_idx @ test_idx @ val_idx = shuffle [0..<N]"
    unfolding tr te va using a0 le by (rule slices_concat)
  show "train_idx = take (nat ?a) (shuffle [0..<N])"
    unfolding tr using a0 by (rule slice_prefix)
  show "test_idx = take (nat (?a + ?t) - nat ?a) (drop (nat ?a) (shuffle [0..<N]))"
    unfolding te using a0 le by (rule slice_middle)
  show "val_idx = drop (nat (?a + ?t)) (shuffle [0..<N])"
    unfolding va using b0 by (rule slice_suffix)
qed

lemma partition_of_concat:
  assumes "train_idx @ test_idx @ val_idx = xs" and "mset xs = mset [0..<N]"
  shows "distinct train_idx \<and> distinct test_idx \<and> distinct val_idx \<and>
         set train_idx \<inter> set test_idx = {} \<and> set train_idx \<inter> set val_idx = {} \<and>
         set test_idx \<inter> set val_idx = {} \<and>
         set train_idx \<union> set test_idx \<union> set val_idx = {0..<N} \<and>
         length train_idx + length test_idx + length val_idx = N"
proof -
  from assms(2) have d: "distinct xs"
    using mset_eq_imp_distinct_iff [of xs "[0..<N]"] by simp
  from assms(2) have s: "set xs = {0..<N}"
    using mset_eq_setD [of xs "[0..<N]"] by simp
  from assms(2) have l: "length xs = N"
    using mset_eq_length [of xs "[0..<N]"] by simp
  from d s l show ?thesis unfolding assms(1) [symmetric] by auto
qed

text \<open>
  Claim C10. Whatever the two ratios are, as long as neither is negative (their sum may
  exceed 1) and the computed products are not negative either, the three lists of the
  Split Engine are, in this order, a cutting of the shuffled indices: each index of
  \<open>[0, N)\<close> is in exactly one of them. The cut points are clamped by the slices: when
  the first reaches \<open>N\<close> the test and validation lists are empty, when the second does
  the validation list is.
\<close>

theorem split_partition_any_ratio:
  assumes "0 \<le> train_ratio" and "0 \<le> test_ratio"
    and "\<forall>r. 0 \<le> r \<longrightarrow> 0 \<le> float_mul N r"
    and "mset (shuffle [0..<N]) = mset [0..<N]"
    and "train_test_val_split shuffle float_mul N train_ratio test_ratio =
           (train_idx, test_idx, val_idx)"
  shows "train_idx @ test_idx @ val_idx = shuffle [0..<N] \<and>
         distinct train_idx \<and> distinct test_idx \<and> distinct val_idx \<and>
         set train_idx \<inter> set test_idx = {} \<and> set train_idx \<inter> set val_idx = {} \<and>
         set test_idx \<inter> set val_idx = {} \<and>
         set train_idx \<union> set test_idx \<union> set val_idx = {0..<N} \<and>
         length train_idx + length test_idx + length val_idx = N \<and>
         (int N \<le> \<lfloor>float_mul N train_ratio\<rfloor> \<longrightarrow> test_idx = [] \<and> val_idx = []) \<and>
         (int N \<le> \<lfloor>float_mul N train_ratio\<rfloor> + \<lfloor>float_mul N test_ratio\<rfloor> \<longrightarrow> val_idx = [])"
proof -
  from assms(1,2,3) have p: "0 \<le> float_mul N train_ratio" "0 \<le> float_mul N test_ratio"
    by simp_all
  note c = split_concat [OF p assms(5)]
  from assms(4) have l: "length (shuffle [0..<N]) = N"
    using mset_eq_length [of "shuffle [0..<N]" "[0..<N]"] by simp
  from p(2) have t0: "0 \<le> \<lfloor>float_mul N test_ratio\<rfloor>" by simp
  have "test_idx = [] \<and> val_idx = []" if "int N \<le> \<lfloor>float_mul N train_ratio\<rfloor>"
  proof -
    from that t0 have "N \<le> nat \<lfloor>float_mul N train_ratio\<rfloor>"
      and "N \<le> nat (\<lfloor>float_mul N train_ratio\<rfloor> + \<lfloor>float_mul N test_ratio\<rfloor>)"
      by linarith+
    with l show ?thesis unfolding c(3) c(4) by simp
  qed
  moreover have "val_idx = []"
    if "int N \<le> \<lfloor>float_mul N train_ratio\<rfloor> + \<lfloor>float_mul N test_ratio\<rfloor>"
  proof -
    from that have "N \<le> nat (\<lfloor>float_mul N train_ratio\<rfloor> + \<lfloor>float_mul N test_ratio\<rfloor>)"
      by linarith
    with l show ?thesis unfolding c(4) by simp
  qed
  ultimately show ?thesis
    using partition_of_concat [OF c(1) assms(4)] c(1) by blast
qed

text \<open>
  Claim C2. For ratios in \<open>[0, 1]\<close> whose sum is at most 1 (and computed products that
  are not negative and within one half of the exact ones, as those of the machine are),
  the three lists are pairwise disjoint and cover \<open>[0, N)\<close>, each index once; the train
  list has \<open>floor (N * train_ratio)\<close> elements and the test list
  \<open>floor (N * test_ratio)\<close>, the products being the computed ones, and the validation
  list is the remainder.
\<close>

theorem split_sizes:
  assumes "0 \<le> train_ratio" and "train_ratio \<le> 1" and "0 \<le> test_ratio" and "test_ratio \<le> 1"
    and "train_ratio + test_ratio \<le> 1"
    and "\<forall>r. 0 \<le> r \<longrightarrow> 0 \<le> float_mul N r \<and> \<bar>float_mul N r - real N * r\<bar> < 1 / 2"
    and "mset (shuffle [0..<N]) = mset [0..<N]"
    and "train_test_val_split shuffle float_mul N train_ratio test_ratio =
           (train_idx, test_idx, val_idx)"
  shows "distinct train_idx \<and> distinct test_idx \<and> distinct val_idx \<and>
         set train_idx \<inter> set test_idx = {} \<and> set train_idx \<inter> set val_idx = {} \<and>
         set test_idx \<inter> set val_idx = {} \<and>
         set train_idx \<union> set test_idx \<union> set val_idx = {0..<N} \<and>
         length train_idx = nat \<lfloor>float_mul N train_ratio\<rfloor> \<and>
         length test_idx = nat \<lfloor>float_mul N test_ratio\<rfloor> \<and>
         length val_idx = N - (length train_idx + length test_idx) \<and>
         length train_idx + length test_idx + length val_idx = N"
proof -
  let ?A = "float_mul N train_ratio" and ?B = "float_mul N test_ratio"
  let ?a = "\<lfloor>?A\<rfloor>" and ?t = "\<lfloor>?B\<rfloor>"
  from assms(1,3,6) have p: "0 \<le> ?A" "0 \<le> ?B"
    and e: "\<bar>?A - real N * train_ratio\<bar> < 1 / 2" "\<bar>?B - real N * test_ratio\<bar> < 1 / 2"
    by simp_all
  note c = split_concat [OF p assms(8)]
  from assms(7) have l: "length (shuffle [0..<N]) = N"
    using mset_eq_length [of "shuffle [0..<N]" "[0..<N]"] by simp
  from p have a0: "0 \<le> ?a" and t0: "0 \<le> ?t" by simp_all
  have "real N * train_ratio + real N * test_ratio = real N * (train_ratio + test_ratio)"
    by (simp add: distrib_left)
  also have "\<dots> \<le> real N * 1"
    using assms(5) by (intro mult_left_mono) simp_all
  finally have exact: "real N * train_ratio + real N * test_ratio \<le> real N" by simp
  have "real_of_int (?a + ?t) \<le> ?A + ?B"
  proof -
    have "real_of_int ?a \<le> ?A" and "real_of_int ?t \<le> ?B" by (rule of_int_floor_le)+
    then show ?thesis by (simp only: of_int_add add_mono)
  qed
  also have "\<dots> < real N + 1" using e exact by linarith
  finally have "real_of_int (?a + ?t) < real_of_int (int N + 1)" by simp
  then have "?a + ?t < int N + 1" by (simp only: of_int_less_iff)
  then have sum: "?a + ?t \<le> int N" by simp
  from sum a0 t0 have na: "nat ?a \<le> N" and nb: "nat (?a + ?t) \<le> N"
    and diff: "nat (?a + ?t) - nat ?a = nat ?t"
    by linarith+
  have lt: "length train_idx = nat ?a" unfolding c(2) using na l by simp
  have "nat ?a + nat ?t \<le> N" using sum a0 t0 by linarith
  then have le: "length test_idx = nat ?t" unfolding c(3) diff using l by simp
  from partition_of_concat [OF c(1) assms(7)] lt le show ?thesis by auto
qed

lemma split_example:
  "train_test_val_split rev (\<lambda>n r. real n * r) 20 (7 / 10) (15 / 100) =
     ([19, 18, 17, 16, 15, 14, 13, 12, 11, 10, 9, 8, 7, 6], [5, 4, 3], [2, 1, 0])"
proof -
  have a: "\<lfloor>20 * 7 / (10 :: real)\<rfloor> = 14" by simp
  have b: "\<lfloor>20 * 15 / (100 :: real)\<rfloor> = 3" by (simp add: floor_eq_iff)
  have u: "[0..<20] = [0, 1, 2, 3, 4, 5, 6, 7, 8, 9, 10, 11, 12, 13, 14, 15, 16, 17, 18, 19]"
    by (simp add: upt_rec)
  show ?thesis
    by (simp add: train_test_val_split_def int_of_float_def a b u slice_def slice_index_def)
qed

lemma split_example_clamped:
  "train_test_val_split rev (\<lambda>n r. real n * r) 4 (3 / 4) (3 / 4) = ([3, 2, 1], [0], [])"
proof -
  have a: "\<lfloor>4 * 3 / (4 :: real)\<rfloor> = 3" by simp
  have u: "[0..<4] = [0, 1, 2, 3]" by (simp add: upt_rec)
  show ?thesis
    by (simp add: train_test_val_split_def int_of_float_def a u slice_def slice_index_def)
qed

text \<open>The split 70/15/15 of \<^verbatim>\<open>train_nn\<close> on 20 items, the shuffle being a reversal.\<close>

theorem split_sizes_witness:
  "train_test_val_split rev (\<lambda>n r. real n * r) 20 (7 / 10) (15 / 100) =
     ([19, 18, 17, 16, 15, 14, 13, 12, 11, 10, 9, 8, 7, 6], [5, 4, 3], [2, 1, 0]) \<and>
   length [19, 18, 17, 16, 15, 14, 13, 12, 11, 10, 9, 8, 7, 6 :: nat] =
     nat \<lfloor>real 20 * (7 / 10)\<rfloor> \<and>
   length [5, 4, 3 :: nat] = nat \<lfloor>real 20 * (15 / 100)\<rfloor> \<and>
   set [19, 18, 17, 16, 15, 14, 13, 12, 11, 10, 9, 8, 7, 6] \<union> set [5, 4, 3] \<union> set [2, 1, 0]
     = {0..<20 :: nat}"
proof -
  have r: "(0 :: real) \<le> 7 / 10" "(7 :: real) / 10 \<le> 1" "(0 :: real) \<le> 15 / 100"
    "(15 :: real) / 100 \<le> 1" "(7 :: real) / 10 + 15 / 100 \<le> 1"
    by simp_all
  have m: "\<forall>r. 0 \<le> r \<longrightarrow> 0 \<le> (\<lambda>n r. real n * r) 20 r \<and>
             \<bar>(\<lambda>n r. real n * r) 20 r - real 20 * r\<bar> < 1 / 2"
    by simp
  have p: "mset (rev [0..<20]) = mset [0..<20]" by simp
  from split_sizes [OF r m p split_example] split_example show ?thesis by blast
qed

text \<open>Ratios 3/4 and 3/4 on 4 items: the validation list is empty, nothing overlaps.\<close>

theorem split_partition_any_ratio_witness:
  "train_test_val_split rev (\<lambda>n r. real n * r) 4 (3 / 4) (3 / 4) = ([3, 2, 1], [0], []) \<and>
   [3, 2, 1] @ [0] @ [] = rev [0..<4] \<and>
   set [3, 2, 1] \<union> set [0] \<union> set [] = {0..<4 :: nat}"
proof -
  have r: "(0 :: real) \<le> 3 / 4" by simp
  have m: "\<forall>r. 0 \<le> r \<longrightarrow> 0 \<le> (\<lambda>n r. real n * r) 4 r" by simp
  have p: "mset (rev [0..<4]) = mset [0..<4]" by simp
  from split_partition_any_ratio [OF r r m p split_example_clamped] split_example_clamped
  show ?thesis by blast
qed

section \<open>Properties of the Inference Engine\<close>

lemma argmax_from_range:
  "argmax_from xs i best best_val = best \<or>
   (i \<le> argmax_from xs i best best_val \<and> argmax_from xs i best best_val < i + length xs)"
proof (induction xs arbitrary: i best best_val)
  case Nil
  then show ?case by simp
next
  case (Cons x xs)
  show ?case
  proof (cases "best_val < x")
    case True
    with Cons [of "Suc i" i x] show ?thesis by auto
  next
    case False
    with Cons [of "Suc i" best best_val] show ?thesis by auto
  qed
qed

lemma argmax_less: "row \<noteq> [] \<Longrightarrow> argmax row < length row"
proof (cases row)
  case Nil
  assume "row \<noteq> []"
  with Nil show ?thesis by simp
next
  case (Cons x xs)
  with argmax_from_range [of xs 1 0 x] show ?thesis by (auto simp add: argmax_def)
qed

text \<open>
  The scan keeps the first index of the largest value seen: with \<open>pre\<close> the part of
  the row already read, \<open>best\<close> the first index of its maximum \<open>best_val\<close>.
\<close>

lemma argmax_from_first_max:
  assumes "best < length pre" and "pre ! best = best_val"
    and "\<forall>j < length pre. pre ! j \<le> best_val" and "\<forall>j < best. pre ! j < best_val"
  shows "(pre @ xs) ! argmax_from xs (length pre) best best_val = Max (set (pre @ xs)) \<and>
         (\<forall>j < argmax_from xs (length pre) best best_val.
            (pre @ xs) ! j < Max (set (pre @ xs)))"
  using assms
proof (induction xs arbitrary: pre best best_val)
  case Nil
  have "pre \<noteq> []" using Nil.prems(1) by auto
  have mx: "Max (set pre) = best_val"
  proof (rule Max_eqI)
    show "finite (set pre)" by simp
    show "y \<le> best_val" if "y \<in> set pre" for y
      using that Nil.prems(3) by (auto simp add: in_set_conv_nth)
    show "best_val \<in> set pre" using Nil.prems(1,2) by (metis nth_mem)
  qed
  with Nil.prems show ?case by simp
next
  case (Cons x xs)
  show ?case
  proof (cases "best_val < x")
    case True
    have "(pre @ [x]) @ xs = pre @ x # xs" by simp
    moreover have "length (pre @ [x]) = Suc (length pre)" by simp
    moreover have
      "((pre @ [x]) @ xs) ! argmax_from xs (length (pre @ [x])) (length pre) x =
          Max (set ((pre @ [x]) @ xs)) \<and>
       (\<forall>j < argmax_from xs (length (pre @ [x])) (length pre) x.
          ((pre @ [x]) @ xs) ! j < Max (set ((pre @ [x]) @ xs)))"
    proof (rule Cons.IH)
      show "length pre < length (pre @ [x])" by simp
      show "(pre @ [x]) ! length pre = x" by simp
      show "\<forall>j < length (pre @ [x]). (pre @ [x]) ! j \<le> x"
        using Cons.prems(3) True by (auto simp add: nth_append less_Suc_eq)
      show "\<forall>j < length pre. (pre @ [x]) ! j < x"
        using Cons.prems(3) True by (auto simp add: nth_append)
    qed
    ultimately show ?thesis using True by simp
  next
    case False
    have "(pre @ [x]) @ xs = pre @ x # xs" by simp
    moreover have "length (pre @ [x]) = Suc (length pre)" by simp
    moreover have
      "((pre @ [x]) @ xs) ! argmax_from xs (length (pre @ [x])) best best_val =
          Max (set ((pre @ [x]) @ xs)) \<and>
       (\<forall>j < argmax_from xs (length (pre @ [x])) best best_val.
          ((pre @ [x]) @ xs) ! j < Max (set ((pre @ [x]) @ xs)))"
    proof (rule Cons.IH)
      show "best < length (pre @ [x])" using Cons.prems(1) by simp
      show "(pre @ [x]) ! best = best_val" using Cons.prems(1,2) by (simp add: nth_append)
      show "\<forall>j < length (pre @ [x]). (pre @ [x]) ! j \<le> best_val"
        using Cons.prems(3) False by (auto simp add: nth_append less_Suc_eq)
      show "\<forall>j < best. (pre @ [x]) ! j < best_val"
        using Cons.prems(1,4) by (auto simp add: nth_append)
    qed
    ultimately show ?thesis using False by simp
  qed
qed

lemma argmax_first_max:
  assumes "row \<noteq> []"
  shows "row ! argmax row = Max (set row) \<and> (\<forall>j < argmax row. row ! j < Max (set row))"
proof -
  from assms obtain x xs where row: "row = x # xs" by (cases row) auto
  have "([x] @ xs) ! argmax_from xs (length [x]) 0 x = Max (set ([x] @ xs)) \<and>
         (\<forall>j < argmax_from xs (length [x]) 0 x. ([x] @ xs) ! j < Max (set ([x] @ xs)))"
    by (rule argmax_from_first_max) simp_all
  then show ?thesis by (simp add: row argmax_def)
qed

lemma foldr_max_less:
  "\<forall>c \<in> set x. c < m \<Longrightarrow> 0 < m \<Longrightarrow> foldr max x (0 :: nat) < m"
  by (induction x) auto

lemma length_bincount:
  assumes "\<forall>c \<in> set x. c < m"
  shows "length (bincount x m) = m"
proof (cases "x = []")
  case True
  then show ?thesis by (simp add: bincount_def)
next
  case False
  with assms have "0 < m" by (cases x) auto
  with foldr_max_less [OF assms] have "Suc (foldr max x 0) \<le> m" by simp
  with False show ?thesis by (simp add: bincount_def max_def)
qed

lemma bincount_nth:
  "c < length (bincount x m) \<Longrightarrow> bincount x m ! c = count_list x c"
  by (simp add: bincount_def)

lemma count_list_map_argmax:
  "count_list (map argmax predictions) cls =
     length (filter (\<lambda>row. argmax row = cls) predictions)"
  by (induction predictions) simp_all

lemma sum_bincount:
  assumes "\<forall>c \<in> set x. c < m"
  shows "sum_list (bincount x m) = length x"
proof -
  have "bincount x m = map (count_list x) [0..<m]"
    using length_bincount [OF assms] by (simp add: bincount_def)
  then have "sum_list (bincount x m) = sum (count_list x) (set [0..<m])"
    by (simp only: sum_set_upt_conv_sum_list_nat)
  also have "\<dots> = length x"
    using assms by (intro sum_count_set) auto
  finally show ?thesis .
qed


lemma percentage_finite:
  "0 < total_predictions \<Longrightarrow>
     np_times (np_divide c total_predictions) 100 = Finite (real c / real total_predictions * 100)"
  by (simp add: np_divide_def)

lemma sum_list_percentages:
  "sum_list (map (\<lambda>c. real c / t * 100) xs) = real (sum_list xs) / t * 100"
  by (induction xs) (simp_all add: add_divide_distrib distrib_right)

lemma class_report_spec:
  assumes "predictions \<noteq> []" and "\<forall>row \<in> set predictions. length row = NUM_CLASSES"
  shows "length (class_report predictions) = NUM_CLASSES"
    and "cls < NUM_CLASSES \<Longrightarrow> class_report predictions ! cls =
           (cls, length (filter (\<lambda>row. argmax row = cls) predictions),
            Finite (real (length (filter (\<lambda>row. argmax row = cls) predictions))
                      / real (length predictions) * 100))"
    and "\<exists>ps. map (\<lambda>(cls, count, percentage). percentage) (class_report predictions) =
                 map Finite ps \<and> sum_list ps = 100"
proof -
  let ?classes = "map argmax predictions"
  let ?counts = "bincount ?classes NUM_CLASSES"
  let ?pct = "\<lambda>c. real c / real (length predictions) * 100"
  have inr: "\<forall>c \<in> set ?classes. c < NUM_CLASSES"
  proof
    fix c assume "c \<in> set ?classes"
    then obtain row where "row \<in> set predictions" and c: "c = argmax row" by auto
    with assms(2) have "length row = NUM_CLASSES" by simp
    moreover from this have "row \<noteq> []" by (auto simp add: NUM_CLASSES_def)
    ultimately show "c < NUM_CLASSES" unfolding c using argmax_less [of row] by simp
  qed
  have len: "length ?counts = NUM_CLASSES" using inr by (rule length_bincount)
  from assms(1) have pos: "0 < length predictions" by simp
  have report: "class_report predictions =
      map (\<lambda>(cls, count). (cls, count, Finite (?pct (?counts ! cls))))
        (zip [0..<NUM_CLASSES] ?counts)"
    unfolding class_report_def Let_def len length_map
    by (rule map_cong [OF refl]) (auto simp add: in_set_zip len percentage_finite [OF pos])
  show "length (class_report predictions) = NUM_CLASSES"
    unfolding report by (simp add: len)
  show "class_report predictions ! cls =
           (cls, length (filter (\<lambda>row. argmax row = cls) predictions),
            Finite (real (length (filter (\<lambda>row. argmax row = cls) predictions))
                      / real (length predictions) * 100))"
    if "cls < NUM_CLASSES"
    unfolding report using that len
    by (simp add: bincount_nth count_list_map_argmax)
  have "map (\<lambda>(cls, count, percentage). percentage) (class_report predictions) =
          map Finite (map ?pct ?counts)"
    unfolding report
    by (rule nth_equalityI) (simp_all add: len)
  moreover have "sum_list (map ?pct ?counts) = 100"
  proof -
    have "sum_list (map ?pct ?counts) = real (sum_list ?counts) / real (length predictions) * 100"
      by (rule sum_list_percentages)
    also have "sum_list ?counts = length predictions"
      using sum_bincount [OF inr] by simp
    finally show ?thesis using pos by simp
  qed
  ultimately show "\<exists>ps. map (\<lambda>(cls, count, percentage). percentage) (class_report predictions) =
                 map Finite ps \<and> sum_list ps = 100"
    by blast
qed


lemma predict_nn_reports:
  "(fastq_path, report) \<in>
      set (fst (predict_nn open_lines parse_fastq dev classifier files alignment_data)) \<Longrightarrow>
   \<exists>seqs aux predictions. classifier seqs aux = Inr predictions \<and>
      report = class_report predictions"
proof (induction files)
  case Nil
  then show ?case by simp
next
  case (Cons f fs)
  let ?this_file =
    "and_then (case alignment_data of
                    None \<Rightarrow> Inr PyNone
                  | Some path \<Rightarrow> and_then (load_alignment_info open_lines path)
                                   (\<lambda>d. Inr (PyDict d))) (\<lambda>alignment_info.
        and_then (load_sequences parse_fastq dev f alignment_info NUM_CHROMOSOMES)
          (\<lambda>r.
        and_then (classifier (res_seqs r) (res_aux r)) (\<lambda>predictions.
          Inr (class_report predictions))))"
  show ?case
  proof (cases ?this_file)
    case (Inl e)
    with Cons.prems show ?thesis by simp
  next
    case (Inr rep)
    then obtain seqs aux predictions where c: "classifier seqs aux = Inr predictions"
      and rep: "rep = class_report predictions"
      unfolding and_then_eq_Inr by auto
    from Cons.prems Inr
    have "(fastq_path, report) = (f, rep) \<or>
          (fastq_path, report) \<in>
             set (fst (predict_nn open_lines parse_fastq dev classifier fs alignment_data))"
      by (auto split: prod.splits)
    then show ?thesis
    proof
      assume "(fastq_path, report) = (f, rep)"
      with c rep show ?thesis by blast
    next
      assume "(fastq_path, report) \<in>
             set (fst (predict_nn open_lines parse_fastq dev classifier fs alignment_data))"
      then show ?thesis by (rule Cons.IH)
    qed
  qed
qed

text \<open>
  Claim C7. The classifier gives \<open>NUM_CLASSES\<close> logits for each example of a batch that
  is not empty. Then every report that \<^verbatim>\<open>predict_nn\<close> prints for a file has one line
  for each of the \<open>NUM_CLASSES\<close> classes, in order; the count of a class is the number of
  examples whose first largest logit is at that class (0 for a class never predicted);
  the percentage of a class is its count divided by the number of predictions, times 100;
  and the percentages of the file add up to 100.
\<close>

theorem predict_nn_class_distribution:
  assumes "\<forall>seqs aux predictions. classifier seqs aux = Inr predictions \<longrightarrow>
             predictions \<noteq> [] \<and> (\<forall>row \<in> set predictions. length row = NUM_CLASSES)"
    and "(fastq_path, report) \<in>
           set (fst (predict_nn open_lines parse_fastq dev classifier files alignment_data))"
  shows "\<exists>predictions. report = class_report predictions \<and> length report = NUM_CLASSES \<and>
           (\<forall>cls < NUM_CLASSES. report ! cls =
              (cls, length (filter (\<lambda>row. argmax row = cls) predictions),
               Finite (real (length (filter (\<lambda>row. argmax row = cls) predictions))
                         / real (length predictions) * 100))) \<and>
           (\<exists>ps. map (\<lambda>(cls, count, percentage). percentage) report = map Finite ps \<and>
                 sum_list ps = 100)"
proof -
  from predict_nn_reports [OF assms(2)] obtain seqs aux predictions
    where c: "classifier seqs aux = Inr predictions" and r: "report = class_report predictions"
    by blast
  from assms(1) c have ne: "predictions \<noteq> []"
    and rows: "\<forall>row \<in> set predictions. length row = NUM_CLASSES"
    by blast+
  note spec = class_report_spec [OF ne rows]
  from spec(1) spec(2) spec(3) show ?thesis unfolding r by blast
qed

lemma class_report_example:
  "class_report [[0, 1, 0, 0, 0]] =
     [(0, 0, Finite 0), (1, 1, Finite 100), (2, 0, Finite 0), (3, 0, Finite 0), (4, 0, Finite 0)]"
proof -
  have u: "[0..<5] = [0, 1, 2, 3, 4]" by (simp add: upt_rec)
  show ?thesis
    by (simp add: class_report_def argmax_def bincount_def NUM_CLASSES_def np_divide_def u)
qed

lemma predict_example:
  "predict_nn (\<lambda>p. Inr []) (\<lambda>p. Inr [\<lparr>rec_id = ''r1'', rec_seq = replicate 150 CHR ''A''\<rparr>]) CPU
     (\<lambda>seqs aux. if seqs = [] then Inl (ValueError ''empty batch'')
                  else Inr (map (\<lambda>s. [0, 1, 0, 0, 0]) seqs))
     [''x__1.fastq''] None =
   ([(''x__1.fastq'',
      [(0, 0, Finite 0), (1, 1, Finite 100), (2, 0, Finite 0), (3, 0, Finite 0),
       (4, 0, Finite 0)])], None)"
  by (simp add: load_sequences_def label1 load_step_def initial_state_def
        normalize_replicate_A normalize_sequence_length INPUT_SIZE_def int64_tensor_def
        attach_aux_def class_report_example)

text \<open>
  One file with one read, and a classifier that answers class 1 for every example: the
  report counts 1 for class 1 (100 per cent) and 0 for the other four classes.
\<close>

theorem predict_nn_class_distribution_witness:
  "predict_nn (\<lambda>p. Inr []) (\<lambda>p. Inr [\<lparr>rec_id = ''r1'', rec_seq = replicate 150 CHR ''A''\<rparr>]) CPU
     (\<lambda>seqs aux. if seqs = [] then Inl (ValueError ''empty batch'')
                  else Inr (map (\<lambda>s. [0, 1, 0, 0, 0]) seqs))
     [''x__1.fastq''] None =
   ([(''x__1.fastq'',
      [(0, 0, Finite 0), (1, 1, Finite 100), (2, 0, Finite 0), (3, 0, Finite 0),
       (4, 0, Finite 0)])], None) \<and>
   length [(0 :: nat, 0 :: nat, Finite 0), (1, 1, Finite 100), (2, 0, Finite 0),
           (3, 0, Finite 0), (4, 0, Finite 0)] = NUM_CLASSES \<and>
   (\<exists>ps. map (\<lambda>(cls, count, percentage). percentage)
            [(0 :: nat, 0 :: nat, Finite 0), (1, 1, Finite 100), (2, 0, Finite 0),
             (3, 0, Finite 0), (4, 0, Finite 0)] = map Finite ps \<and> sum_list ps = 100)"
proof -
  let ?classifier = "\<lambda>(seqs :: real list list list) (aux :: real list list list option).
      if seqs = [] then Inl (ValueError ''empty batch'')
      else (Inr (map (\<lambda>s. [0, 1, 0, 0, 0 :: real]) seqs) :: py_error + real list list)"
  have contract: "\<forall>seqs aux predictions. ?classifier seqs aux = Inr predictions \<longrightarrow>
             predictions \<noteq> [] \<and> (\<forall>row \<in> set predictions. length row = NUM_CLASSES)"
    by (auto simp add: NUM_CLASSES_def split: if_splits)
  have mem: "(''x__1.fastq'',
      [(0, 0, Finite 0), (1, 1, Finite 100), (2, 0, Finite 0), (3, 0, Finite 0),
       (4, 0, Finite 0)]) \<in>
     set (fst (predict_nn (\<lambda>p. Inr [])
        (\<lambda>p. Inr [\<lparr>rec_id = ''r1'', rec_seq = replicate 150 CHR ''A''\<rparr>]) CPU ?classifier
        [''x__1.fastq''] None))"
    unfolding predict_example by simp
  from predict_nn_class_distribution [OF contract mem] predict_example
  show ?thesis by blast
qed

section \<open>The loader and the training run on a dictionary\<close>

text \<open>
  Given the dictionary, the loader does what the sibling path relies on: a retained read
  whose identifier is a key with a chromosome in \<open>[0, num_chromosomes)\<close> gets the
  one-hot vector followed by start and end, of length \<open>num_chromosomes + 2\<close>; a read
  without a key gets nothing.
\<close>

lemma load_step_PyDict_present:
  assumes "\<not> short record" and "map_of d (rec_id record) = Some (chromosome, start, end)"
    and "0 \<le> chromosome" and "chromosome < int n"
    and "- (2 ^ 63) \<le> l" and "l < 2 ^ 63"
  shows "load_step dev n l (PyDict d) st record =
           Inr (st\<lparr>total := total st + 1,
                    seqs := seqs st @ [seq_tensor_of record],
                    labels := labels st @ [[l]],
                    aux_inputs := aux_inputs st @
                      [[(replicate n 0)[nat chromosome := 1] @
                          [real_of_int start, real_of_int end]]]\<rparr>)"
  using assms
  by (simp add: load_step_def short_def seq_tensor_of_def normalize_sequence_length Let_def
        attach_aux_PyDict int64_tensor_def)

lemma aux_vector_length:
  "length ((replicate n (0 :: real))[nat chromosome := 1] @ [real_of_int start, real_of_int end])
     = n + 2"
  by simp

lemma load_step_PyDict_absent:
  assumes "\<not> short record" and "map_of d (rec_id record) = None"
    and "- (2 ^ 63) \<le> l" and "l < 2 ^ 63"
  shows "load_step dev n l (PyDict d) st record =
           Inr (st\<lparr>total := total st + 1,
                    seqs := seqs st @ [seq_tensor_of record],
                    labels := labels st @ [[l]]\<rparr>)"
  using assms
  by (simp add: load_step_def short_def seq_tensor_of_def normalize_sequence_length Let_def
        attach_aux_def int64_tensor_def)

text \<open>
  Whatever the alignment argument is, a training run that returns from loading has
  auxiliary data exactly when some file produced auxiliary vectors, and then the
  auxiliary input width is \<open>NUM_CHROMOSOMES + 2\<close>.
\<close>

lemma train_load_loop_has_aux:
  "train_load_loop parse_fastq dev alignment_data acc files = Inr acc' \<Longrightarrow>
     has_aux_inputs acc' =
       (has_aux_inputs acc \<or>
        (\<exists>f \<in> set files. \<exists>r. load_sequences parse_fastq dev f alignment_data NUM_CHROMOSOMES = Inr r
            \<and> res_aux r \<noteq> None))"
proof (induction files arbitrary: acc)
  case Nil
  then show ?case by simp
next
  case (Cons f fs)
  from Cons.prems obtain r
    where r: "load_sequences parse_fastq dev f alignment_data NUM_CHROMOSOMES = Inr r"
    by (auto split: sum.splits)
  show ?case
  proof (cases "res_aux r")
    case None
    with Cons.prems r
    have "train_load_loop parse_fastq dev alignment_data
            (acc\<lparr>all_sequences := all_sequences acc @ [res_seqs r],
                 all_labels := all_labels acc @ [res_labels r]\<rparr>) fs = Inr acc'"
      by (simp add: Let_def)
    from Cons.IH [OF this] r None show ?thesis by auto
  next
    case (Some aux)
    with Cons.prems r
    have "train_load_loop parse_fastq dev alignment_data
            (acc\<lparr>all_sequences := all_sequences acc @ [res_seqs r],
                 all_labels := all_labels acc @ [res_labels r],
                 all_aux_inputs := all_aux_inputs acc @ [aux],
                 has_aux_inputs := True\<rparr>) fs = Inr acc'"
      by (simp add: Let_def)
    from Cons.IH [OF this] r Some show ?thesis by auto
  qed
qed

lemma train_nn_load_has_aux:
  assumes "train_nn_load parse_fastq dev fastq_files alignment_data = Inr d"
  shows "data_has_aux d =
           (\<exists>f \<in> set fastq_files. \<exists>r.
              load_sequences parse_fastq dev f alignment_data NUM_CHROMOSOMES = Inr r \<and>
              res_aux r \<noteq> None)"
    and "aux_input_size d = (if data_has_aux d then Some (NUM_CHROMOSOMES + 2) else None)"
proof -
  from assms obtain acc where
    loop: "train_load_loop parse_fastq dev alignment_data
             \<lparr>all_sequences = [], all_labels = [], all_aux_inputs = [], has_aux_inputs = False\<rparr>
             fastq_files = Inr acc"
    and d: "data_has_aux d = has_aux_inputs acc"
       "aux_input_size d = (if has_aux_inputs acc then Some (NUM_CHROMOSOMES + 2) else None)"
    unfolding train_nn_load_def and_then_eq_Inr
    by (auto split: if_splits)
  from train_load_loop_has_aux [OF loop] d(1)
  show "data_has_aux d =
           (\<exists>f \<in> set fastq_files. \<exists>r.
              load_sequences parse_fastq dev f alignment_data NUM_CHROMOSOMES = Inr r \<and>
              res_aux r \<noteq> None)"
    by simp
  from d show "aux_input_size d = (if data_has_aux d then Some (NUM_CHROMOSOMES + 2) else None)"
    by simp
qed

end
